theory Spec2Isabelle
  imports Main "HOL-Library.AList" "HOL-Library.Char_ord" "HOL-Library.List_Lexorder"
    "HOL-Library.Product_Lexorder"
begin

section \<open>Python strings\<close>

text \<open>
  A Python \<open>str\<close> is modelled as a \<^typ>\<open>string\<close> of ASCII characters. The character
  classes below are the ASCII part of what \<open>str.isspace\<close>, \<open>str.lower\<close>, \<open>str.upper\<close>
  and the \<open>re\<close> module use on \<open>str\<close> patterns, and on ASCII strings the functions of
  this section return what Python returns. The Unicode case tables are outside the
  model: on other characters \<open>str.lower\<close> and \<open>str.title\<close> can change the length of a
  string and \<open>str.title\<close> need not be idempotent (\<open>U+0130\<close> lower-cases to \<open>i\<close> followed by
  the uncased \<open>U+0307\<close>), which the functions below do not show. \<open>is_ascii\<close> marks the
  strings on which the model is exact.
\<close>

definition is_ascii :: "string \<Rightarrow> bool" where
  "is_ascii s = list_all (\<lambda>c. (of_char c :: nat) < 128) s"

definition is_space :: "char \<Rightarrow> bool" where
  \<comment> \<open>\<open>str.isspace\<close> and \<open>\s\<close>: TAB, LF, VT, FF, CR, FS, GS, RS, US and the blank.\<close>
  "is_space c = (let n = (of_char c :: nat) in (9 \<le> n \<and> n \<le> 13) \<or> (28 \<le> n \<and> n \<le> 32))"

definition is_upper :: "char \<Rightarrow> bool" where
  "is_upper c = (let n = (of_char c :: nat) in 65 \<le> n \<and> n \<le> 90)"

definition is_lower :: "char \<Rightarrow> bool" where
  "is_lower c = (let n = (of_char c :: nat) in 97 \<le> n \<and> n \<le> 122)"

definition is_cased :: "char \<Rightarrow> bool" where
  "is_cased c = (is_upper c \<or> is_lower c)"

definition is_digit :: "char \<Rightarrow> bool" where
  \<comment> \<open>\<open>\d\<close>\<close>
  "is_digit c = (let n = (of_char c :: nat) in 48 \<le> n \<and> n \<le> 57)"

definition lower_chr :: "char \<Rightarrow> char" where
  "lower_chr c = (if is_upper c then char_of (of_char c + (32 :: nat)) else c)"

definition upper_chr :: "char \<Rightarrow> char" where
  "upper_chr c = (if is_lower c then char_of (of_char c - (32 :: nat)) else c)"

definition lower :: "string \<Rightarrow> string" where
  \<comment> \<open>\<open>str.lower\<close>\<close>
  "lower s = map lower_chr s"

definition strip :: "string \<Rightarrow> string" where
  \<comment> \<open>\<open>str.strip()\<close>: leading and trailing whitespace removed\<close>
  "strip s = rev (dropWhile is_space (rev (dropWhile is_space s)))"

fun title_from :: "bool \<Rightarrow> string \<Rightarrow> string" where
  "title_from previous_is_cased [] = []"
| "title_from previous_is_cased (c # cs) =
     (if previous_is_cased then lower_chr c else upper_chr c) # title_from (is_cased c) cs"

definition title :: "string \<Rightarrow> string" where
  \<comment> \<open>\<open>str.title()\<close> on an ASCII string: a cased character is upper-cased after an uncased
      one (or at the start) and lower-cased after a cased one\<close>
  "title s = title_from False s"

fun is_prefix_of :: "string \<Rightarrow> string \<Rightarrow> bool" where
  "is_prefix_of [] s = True"
| "is_prefix_of (p # ps) [] = False"
| "is_prefix_of (p # ps) (c # cs) = (p = c \<and> is_prefix_of ps cs)"

fun contains :: "string \<Rightarrow> string \<Rightarrow> bool" where
  \<comment> \<open>\<open>contains s x\<close> is Python's \<open>x in s\<close> on strings\<close>
  "contains [] x = (x = [])"
| "contains (c # cs) x = (is_prefix_of x (c # cs) \<or> contains cs x)"

section \<open>Name normalisation\<close>

text \<open>
  \<^verbatim>\<open>
  def normalize_name(name: str) -> str:
      if not name or not isinstance(name, str):
          return ''
      s = name.strip()
      s = re.sub(r'^(By[:\s]+)', '', s, flags=re.I)
      s = re.sub(r'[\u200b\u200c\u200d]', '', s)
      s = re.sub(r'[\.\,\/\(\)\[\]\*\"\u201c\u201d\'`]', ' ', s)
      s = re.sub(r'\s+', ' ', s).strip()
      if len(s) <= 1:
          return ''
      return s.title()
  \<close>
  The zero-width characters U+200B to U+200D and the two curly quotes of the punctuation
  class are not ASCII, so on the strings of the model the second substitution changes
  nothing and the punctuation class is its eleven ASCII members.
\<close>

definition is_colon_or_space :: "char \<Rightarrow> bool" where
  \<comment> \<open>the class \<open>[:\s]\<close>\<close>
  "is_colon_or_space c = (c = CHR '':'' \<or> is_space c)"

fun by_prefixed :: "string \<Rightarrow> bool" where
  \<comment> \<open>whether \<open>^(By[:\s]+)\<close> matches, ignoring case\<close>
  "by_prefixed (b # y # c # rest) =
     (lower_chr b = CHR ''b'' \<and> lower_chr y = CHR ''y'' \<and> is_colon_or_space c)"
| "by_prefixed s = False"

definition strip_by :: "string \<Rightarrow> string" where
  \<comment> \<open>\<open>re.sub(r'^(By[:\s]+)', '', s, flags=re.I)\<close>: the match is greedy and anchored\<close>
  "strip_by s = (if by_prefixed s then dropWhile is_colon_or_space (drop 2 s) else s)"

definition is_punct :: "char \<Rightarrow> bool" where
  "is_punct c = (c \<in> set ''.,/()[]*\"'`'')"

definition replace_punct :: "string \<Rightarrow> string" where
  "replace_punct s = map (\<lambda>c. if is_punct c then CHR '' '' else c) s"

function collapse_ws :: "string \<Rightarrow> string" where
  \<comment> \<open>\<open>re.sub(r'\s+', ' ', s)\<close>: every maximal run of whitespace becomes one blank\<close>
  "collapse_ws [] = []"
| "collapse_ws (c # cs) =
     (if is_space c then CHR '' '' # collapse_ws (dropWhile is_space cs)
      else c # collapse_ws cs)"
  by pat_completeness auto
termination
  by (relation "measure length") (auto simp: length_dropWhile_le less_Suc_eq_le)

definition normalize_name :: "string \<Rightarrow> string" where
  "normalize_name name =
     (if name = [] then []
      else let s = strip name;
               s = strip_by s;
               s = replace_punct s;
               s = strip (collapse_ws s)
           in if length s \<le> 1 then [] else title s)"

text \<open>
  The shape of a string in which every whitespace character is a single blank that is
  not followed by another whitespace character: what \<open>collapse_ws\<close> produces.
\<close>

fun single_blanks :: "string \<Rightarrow> bool" where
  "single_blanks [] = True"
| "single_blanks (c # cs) =
     ((if is_space c then c = CHR '' '' \<and> (cs = [] \<or> \<not> is_space (hd cs)) else True)
      \<and> single_blanks cs)"

section \<open>The prefer-newer rule on publication dates\<close>

text \<open>
  \<^verbatim>\<open>
  def _prefer_newer(existing_date: str, candidate_date: str) -> bool:
      if not candidate_date or candidate_date == 'Unknown':
          return False
      if not existing_date or existing_date == 'Unknown':
          return True
      def parse_iso(d):
          m = re.search(r'(\d{4})[-/](\d{1,2})[-/](\d{1,2})', d)
          if m:
              y, mn, dd = m.groups()
              try:
                  return datetime.date(int(y), int(mn), int(dd))
              except Exception:
                  return None
          return None
      try:
          cd = parse_iso(candidate_date)
          ed = parse_iso(existing_date)
          if cd and ed:
              return cd > ed
      except Exception:
          pass
      return len(candidate_date) > len(existing_date)
  \<close>
\<close>

datatype date = Date (year: nat) (month: nat) (day: nat)

definition is_leap :: "nat \<Rightarrow> bool" where
  "is_leap y = (y mod 4 = 0 \<and> (y mod 100 \<noteq> 0 \<or> y mod 400 = 0))"

definition days_in_month :: "nat \<Rightarrow> nat \<Rightarrow> nat" where
  "days_in_month y m =
     (if m = 2 then (if is_leap y then 29 else 28)
      else if m = 4 \<or> m = 6 \<or> m = 9 \<or> m = 11 then 30 else 31)"

definition datetime_date :: "nat \<Rightarrow> nat \<Rightarrow> nat \<Rightarrow> date option" where
  \<comment> \<open>\<open>datetime.date(y, m, d)\<close>; \<open>None\<close> stands for its \<open>ValueError\<close>\<close>
  "datetime_date y m d =
     (if 1 \<le> y \<and> y \<le> 9999 \<and> 1 \<le> m \<and> m \<le> 12 \<and> 1 \<le> d \<and> d \<le> days_in_month y m
      then Some (Date y m d) else None)"

definition date_less :: "date \<Rightarrow> date \<Rightarrow> bool" where
  \<comment> \<open>\<open>a < b\<close> on dates: by year, then month, then day\<close>
  "date_less a b =
     (year a < year b \<or> (year a = year b \<and>
        (month a < month b \<or> (month a = month b \<and> day a < day b))))"

definition int_of_digits :: "string \<Rightarrow> nat" where
  \<comment> \<open>\<open>int(s)\<close> on a string of decimal digits\<close>
  "int_of_digits s = foldl (\<lambda>n c. 10 * n + (of_char c - 48)) 0 s"

definition is_sep :: "char \<Rightarrow> bool" where
  \<comment> \<open>the class \<open>[-/]\<close>\<close>
  "is_sep c = (c = CHR ''-'' \<or> c = CHR ''/'')"

fun digits12 :: "string \<Rightarrow> (string \<times> string) option" where
  \<comment> \<open>the greedy \<open>\d{1,2}\<close> at the start of a string: the digits and the rest\<close>
  "digits12 (a # b # r) =
     (if is_digit a \<and> is_digit b then Some ([a, b], r)
      else if is_digit a then Some ([a], b # r) else None)"
| "digits12 [a] = (if is_digit a then Some ([a], []) else None)"
| "digits12 [] = None"

text \<open>
  The pattern anchored at the start of a string. Backtracking never helps: when the month
  takes two digits and no separator follows, one digit leaves a digit where the
  separator must be.
\<close>

fun match_ymd :: "string \<Rightarrow> (string \<times> string \<times> string) option" where
  "match_ymd (y1 # y2 # y3 # y4 # s1 # rest) =
     (if is_digit y1 \<and> is_digit y2 \<and> is_digit y3 \<and> is_digit y4 \<and> is_sep s1 then
        (case digits12 rest of
           None \<Rightarrow> None
         | Some (mn, r) \<Rightarrow>
             (case r of
                [] \<Rightarrow> None
              | s2 # r' \<Rightarrow>
                  if is_sep s2 then
                    (case digits12 r' of
                       None \<Rightarrow> None
                     | Some (dd, _) \<Rightarrow> Some ([y1, y2, y3, y4], mn, dd))
                  else None))
      else None)"
| "match_ymd s = None"

fun search_ymd :: "string \<Rightarrow> (string \<times> string \<times> string) option" where
  \<comment> \<open>\<open>re.search\<close>: the leftmost position at which the pattern matches\<close>
  "search_ymd [] = None"
| "search_ymd (c # cs) =
     (case match_ymd (c # cs) of Some g \<Rightarrow> Some g | None \<Rightarrow> search_ymd cs)"

definition parse_iso :: "string \<Rightarrow> date option" where
  "parse_iso d =
     (case search_ymd d of
        None \<Rightarrow> None
      | Some (y, mn, dd) \<Rightarrow> datetime_date (int_of_digits y) (int_of_digits mn) (int_of_digits dd))"

definition prefer_newer :: "string \<Rightarrow> string \<Rightarrow> bool" where
  "prefer_newer existing_date candidate_date =
     (if candidate_date = [] \<or> candidate_date = ''Unknown'' then False
      else if existing_date = [] \<or> existing_date = ''Unknown'' then True
      else (case (parse_iso candidate_date, parse_iso existing_date) of
              (Some cd, Some ed) \<Rightarrow> date_less ed cd
            | _ \<Rightarrow> length candidate_date > length existing_date))"

text \<open>
  What ``chronologically later'' means: the number of a day, counted from 1 January of
  year 1 as \<open>date.toordinal()\<close> counts it, by adding up the lengths of the years and of
  the months before it. It is not part of the program; it is what \<open>date_less\<close> is
  compared with.
\<close>

definition days_in_year :: "nat \<Rightarrow> nat" where
  "days_in_year y = (if is_leap y then 366 else 365)"

definition days_before_year :: "nat \<Rightarrow> nat" where
  "days_before_year y = sum_list (map days_in_year [1..<y])"

definition days_before_month :: "nat \<Rightarrow> nat \<Rightarrow> nat" where
  "days_before_month y m = sum_list (map (days_in_month y) [1..<m])"

definition day_number :: "date \<Rightarrow> nat" where
  "day_number d = days_before_year (year d) + days_before_month (year d) (month d) + day d"

section \<open>Author profiles\<close>

text \<open>
  A profile is the dictionary that \<open>_finalize_profiles\<close> emits; an entry of the
  in-memory \<open>profiles_map\<close> has the same keys and \<open>beat_counts\<close> besides, which is
  \<open>None\<close> once \<open>v.pop('beat_counts', None)\<close> has removed the key. Python dictionaries
  keep insertion order, so \<open>profiles_map\<close> and \<open>beat_counts\<close> are association lists:
  \<open>map_of\<close> is \<open>dict.get\<close>, and \<open>AList.update\<close> assigns to a key, in place when the key is
  present and at the end when it is new.
\<close>

record profile =
  name :: string
  beat :: string
  latest_article :: string
  article_url :: string
  publication_date :: string
  articles_count :: int

record entry = profile +
  beat_counts :: "(string \<times> int) list option"

type_synonym profiles_map = "(string \<times> entry) list"

definition or_unknown :: "string \<Rightarrow> string" where
  \<comment> \<open>\<open>s or 'Unknown'\<close>\<close>
  "or_unknown s = (if s = [] then ''Unknown'' else s)"

subsection \<open>Finalisation\<close>

text \<open>
  \<^verbatim>\<open>
  def _finalize_profiles(profiles_map):
      profiles = []
      blacklist = set(['contributors','staff','editorial','team','unknown','s'])
      for k, v in profiles_map.items():
          name_low = (v.get('name') or '').strip().lower()
          if not name_low or name_low in blacklist:
              continue
          if v.get('beat_counts'):
              best = max(v['beat_counts'].items(), key=lambda x: x[1])[0]
              v['beat'] = best or 'Unknown'
          v.pop('beat_counts', None)
          profiles.append({
              'name': v.get('name'),
              'beat': v.get('beat', 'Unknown'),
              'latest_article': v.get('latest_article', '') or 'Unknown',
              'article_url': v.get('article_url', ''),
              'publication_date': v.get('publication_date', 'Unknown'),
              'articles_count': v.get('articles_count', 0)
          })
      profiles.sort(key=lambda x: (-x.get('articles_count', 0), x.get('name', '')))
      return profiles[:max(30, len(profiles))]
  \<close>
  The function changes the entries of the map it is given (\<open>v\<close> is the entry itself, not a
  copy), so the model returns the map as the call leaves it together with the list.
\<close>

definition blacklist :: "string list" where
  "blacklist = [''contributors'', ''staff'', ''editorial'', ''team'', ''unknown'', ''s'']"

fun max_by_count :: "string \<times> int \<Rightarrow> (string \<times> int) list \<Rightarrow> string \<times> int" where
  \<comment> \<open>\<open>max(items, key=lambda x: x[1])\<close>: the first item of the largest count\<close>
  "max_by_count best [] = best"
| "max_by_count best (x # xs) = max_by_count (if snd best < snd x then x else best) xs"

definition finalize_entry :: "entry \<Rightarrow> profile option \<times> entry" where
  \<comment> \<open>one turn of the loop: the profile appended, if any, and the entry afterwards\<close>
  "finalize_entry v =
     (let name_low = lower (strip (name v)) in
      if name_low = [] \<or> name_low \<in> set blacklist then (None, v)
      else
        let v = (case beat_counts v of
                   Some (x # xs) \<Rightarrow> v\<lparr>beat := or_unknown (fst (max_by_count x xs))\<rparr>
                 | _ \<Rightarrow> v);
            v = v\<lparr>beat_counts := None\<rparr>
        in (Some \<lparr>name = name v, beat = beat v,
                   latest_article = or_unknown (latest_article v),
                   article_url = article_url v,
                   publication_date = publication_date v,
                   articles_count = articles_count v\<rparr>, v))"

definition sort_profiles :: "profile list \<Rightarrow> profile list" where
  \<comment> \<open>\<open>list.sort\<close> is stable; tuples compare lexicographically, strings by code point\<close>
  "sort_profiles profiles = sort_key (\<lambda>x. (- articles_count x, name x)) profiles"

definition finalize_profiles :: "profiles_map \<Rightarrow> profile list \<times> profiles_map" where
  "finalize_profiles pm =
     (let profiles = List.map_filter (\<lambda>(k, v). fst (finalize_entry v)) pm;
          profiles = sort_profiles profiles
      in (take (max 30 (length profiles)) profiles,
          map (\<lambda>(k, v). (k, snd (finalize_entry v))) pm))"

subsection \<open>Merging the pages\<close>

text \<open>
  \<^verbatim>\<open>
  def extract_profiles(base_url, min_profiles=30):
      urls = find_article_links(base_url)
      profiles_map = {}
      ...
      processed = 0
      for url in urls:
          if len(profiles_map) >= min_profiles:
              break
          try:
              if not allowed_by_robots(url):
                  continue
              r = session.get(url, timeout=REQUEST_TIMEOUT)
              if r.status_code != 200:
                  continue
              soup = BeautifulSoup(r.text, 'html.parser')
              authors = extract_authors(soup)
              title = extract_title(soup)
              pub_date = extract_pub_date(soup)
              section = extract_section(soup, url=url)
              section = normalize_beat(section)
              for author in authors:
                  norm = normalize_name(author)
                  if not norm:
                      continue
                  key = norm.lower()
                  entry = profiles_map.get(key)
                  if not entry:
                      profiles_map[key] = {
                          'name': norm,
                          'beat_counts': {section: 1} if section else {},
                          'beat': section or 'Unknown',
                          'latest_article': title or 'Unknown',
                          'article_url': url,
                          'publication_date': pub_date or 'Unknown',
                          'articles_count': 1
                      }
                  else:
                      entry['articles_count'] += 1
                      if section:
                          entry['beat_counts'][section] = entry['beat_counts'].get(section, 0) + 1
                      if _prefer_newer(entry.get('publication_date', 'Unknown'), pub_date):
                          entry['publication_date'] = pub_date
                          entry['latest_article'] = title
                          entry['article_url'] = url
              processed += 1
              if processed % WRITE_PROGRESS_EVERY == 0:
                  profiles = _finalize_profiles(profiles_map)
                  payload = {"outlet_name": OUTLET, "website": base_url, "profiles": profiles}
                  _atomic_write_json(data_file, payload)
                  count_written += 1
          except Exception:
              continue
      profiles = _finalize_profiles(profiles_map)
      return profiles
  \<close>
  What the network and the HTML parser give is an input of the model: \<open>fetch url\<close> is
  \<open>None\<close> when the page is skipped before its authors are merged (robots.txt disallows
  it, the status is not 200, or the request or an extractor raises), and otherwise the
  values of \<open>authors\<close>, \<open>title\<close>, \<open>pub_date\<close> and \<open>section\<close> (the fields
  \<open>page_title\<close> and \<open>page_section\<close> for the second and the last) at the start of the
  \<open>for author in authors\<close> loop. The list \<open>urls\<close> is what \<open>find_article_links\<close> returned.
\<close>

record page =
  authors :: "string list"
  page_title :: string
  pub_date :: string
  page_section :: string

datatype py_error = KeyError

datatype 'a outcome = Done 'a | Raised py_error 'a
  \<comment> \<open>both carry the map: what was assigned before an exception stays assigned\<close>

definition WRITE_PROGRESS_EVERY :: nat where
  "WRITE_PROGRESS_EVERY = 5"

definition new_entry :: "string \<Rightarrow> page \<Rightarrow> string \<Rightarrow> entry" where
  "new_entry url pg norm =
     \<lparr>name = norm, beat = or_unknown (page_section pg),
      latest_article = or_unknown (page_title pg), article_url = url,
      publication_date = or_unknown (pub_date pg), articles_count = 1,
      beat_counts = Some (if page_section pg = [] then [] else [(page_section pg, 1)])\<rparr>"

definition bump :: "(string \<times> int) list \<Rightarrow> string \<Rightarrow> (string \<times> int) list" where
  \<comment> \<open>\<open>d[section] = d.get(section, 0) + 1\<close>\<close>
  "bump d s = AList.update s ((case map_of d s of None \<Rightarrow> 0 | Some n \<Rightarrow> n) + 1) d"

definition update_latest :: "string \<Rightarrow> page \<Rightarrow> entry \<Rightarrow> entry" where
  "update_latest url pg e =
     (if prefer_newer (publication_date e) (pub_date pg)
      then e\<lparr>publication_date := pub_date pg, latest_article := page_title pg,
             article_url := url\<rparr>
      else e)"

definition merge_author :: "string \<Rightarrow> page \<Rightarrow> profiles_map \<Rightarrow> string \<Rightarrow> profiles_map outcome" where
  \<comment> \<open>one turn of \<open>for author in authors\<close>; a missing \<open>beat_counts\<close> key raises \<open>KeyError\<close>
      after the count has been incremented\<close>
  "merge_author url pg pm author =
     (let norm = normalize_name author in
      if norm = [] then Done pm
      else
        let key = lower norm in
        case map_of pm key of
          None \<Rightarrow> Done (AList.update key (new_entry url pg norm) pm)
        | Some e \<Rightarrow>
            let e = e\<lparr>articles_count := articles_count e + 1\<rparr> in
            if page_section pg \<noteq> [] then
              (case beat_counts e of
                 None \<Rightarrow> Raised KeyError (AList.update key e pm)
               | Some d \<Rightarrow>
                   Done (AList.update key
                     (update_latest url pg (e\<lparr>beat_counts := Some (bump d (page_section pg))\<rparr>)) pm))
            else Done (AList.update key (update_latest url pg e) pm))"

fun merge_authors :: "string \<Rightarrow> page \<Rightarrow> profiles_map \<Rightarrow> string list \<Rightarrow> profiles_map outcome" where
  "merge_authors url pg pm [] = Done pm"
| "merge_authors url pg pm (a # as) =
     (case merge_author url pg pm a of
        Done pm' \<Rightarrow> merge_authors url pg pm' as
      | Raised err pm' \<Rightarrow> Raised err pm')"

text \<open>
  The state of the loop: the map, the counter, and the two effects of the loop as
  lists in the order they happen, \<open>written\<close> for the \<open>profiles\<close> of every progress
  payload and \<open>fetched\<close> for the URLs requested.
\<close>

record run =
  profiles_map :: profiles_map
  processed :: nat
  written :: "profile list list"
  fetched :: "string list"

definition extract_step :: "(string \<Rightarrow> page option) \<Rightarrow> run \<Rightarrow> string \<Rightarrow> run" where
  \<comment> \<open>the body of \<open>for url in urls\<close> after the test of \<open>min_profiles\<close>; \<open>continue\<close> and the
      handler of \<open>except Exception\<close> go on with the state as it is\<close>
  "extract_step fetch st url =
     (let st = st\<lparr>fetched := fetched st @ [url]\<rparr> in
      case fetch url of
        None \<Rightarrow> st
      | Some pg \<Rightarrow>
          (case merge_authors url pg (profiles_map st) (authors pg) of
             Raised err pm \<Rightarrow> st\<lparr>profiles_map := pm\<rparr>
           | Done pm \<Rightarrow>
               let st = st\<lparr>profiles_map := pm, processed := processed st + 1\<rparr> in
               if processed st mod WRITE_PROGRESS_EVERY = 0 then
                 let (profiles, pm) = finalize_profiles (profiles_map st)
                 in st\<lparr>profiles_map := pm, written := written st @ [profiles]\<rparr>
               else st))"

fun extract_loop :: "(string \<Rightarrow> page option) \<Rightarrow> int \<Rightarrow> run \<Rightarrow> string list \<Rightarrow> run" where
  "extract_loop fetch min_profiles st [] = st"
| "extract_loop fetch min_profiles st (url # urls) =
     (if min_profiles \<le> int (length (profiles_map st)) then st
      else extract_loop fetch min_profiles (extract_step fetch st url) urls)"

definition extract_run :: "(string \<Rightarrow> page option) \<Rightarrow> string list \<Rightarrow> int \<Rightarrow> run" where
  \<comment> \<open>the state when the \<open>for url in urls\<close> loop is left\<close>
  "extract_run fetch urls min_profiles =
     extract_loop fetch min_profiles
       \<lparr>profiles_map = [], processed = 0, written = [], fetched = []\<rparr> urls"

definition extract_profiles :: "(string \<Rightarrow> page option) \<Rightarrow> string list \<Rightarrow> int \<Rightarrow> profile list" where
  "extract_profiles fetch urls min_profiles =
     fst (finalize_profiles (profiles_map (extract_run fetch urls min_profiles)))"

subsection \<open>An invariant of the map\<close>

definition counted :: "profiles_map \<Rightarrow> bool" where
  \<comment> \<open>every entry has been observed at least once\<close>
  "counted pm = list_all (\<lambda>(k, e). 1 \<le> articles_count e) pm"

section \<open>The crawler\<close>

text \<open>
  \<^verbatim>\<open>
  def find_article_links(base_url):
      ...
      domain = urlparse(base_url).netloc.lower()
      to_visit = [base_url]
      seen = set()
      article_links = set()
      seeds = ['', '/news', '/latest', '/world', '/articles', '/section', '/topics',
               '/author', '/authors', '/contributors', '/staff']
      for s in seeds:
          to_visit.append(urljoin(base_url, s))
      while to_visit and len(article_links) < MAX_ARTICLE_URLS:
          url = to_visit.pop(0)
          if not url or url in seen:
              continue
          seen.add(url)
          try:
              if not allowed_by_robots(url):
                  continue
              r = session.get(url, timeout=REQUEST_TIMEOUT)
              if r.status_code != 200:
                  continue
              soup = BeautifulSoup(r.text, 'html.parser')
              for a in soup.find_all('a', href=True):
                  href = a['href']
                  if not href:
                      continue
                  full = urljoin(url, href)
                  p = urlparse(full)
                  if domain not in p.netloc.lower():
                      continue
                  path = p.path.lower()
                  if re.search(r'/\d{4}/\d{1,2}/\d{1,2}/', path) or any(x in path for x in
                        ['/article','/news/','/story','/opinion','/feature','/analysis',
                         '/reports','/sport','/sports']):
                      article_links.add(full.split('?')[0])
                  if any(x in path for x in ['/author','/authors','/staff','/contributors',
                        '/profile']) or len(path.strip('/').split('/')) <= 3:
                      if full not in seen:
                          to_visit.append(full)
              time.sleep(CRAWL_DELAY)
          except Exception:
              continue
      return list(article_links)[:MAX_ARTICLE_URLS]
  \<close>
  The standard library and the network are inputs of the model, gathered in a record:
  \<open>urljoin\<close>, the \<open>netloc\<close> and the \<open>path\<close> of \<open>urlparse\<close>, and \<open>anchors url\<close>, which is
  \<open>None\<close> when the page is skipped (robots.txt, a status other than 200, an exception of
  the request or the parser) and otherwise the non-empty \<open>href\<close> values of the page in
  document order, up to the first one, if any, at which \<open>urljoin\<close> or \<open>urlparse\<close>
  raises. The sets \<open>seen\<close> and \<open>article_links\<close> are lists without repetition; the order
  in which \<open>list(article_links)\<close> enumerates the set is not fixed by Python, and the model
  takes the order of insertion, latest first.
\<close>

record web =
  urljoin :: "string \<Rightarrow> string \<Rightarrow> string"
  netloc :: "string \<Rightarrow> string"
  path :: "string \<Rightarrow> string"
  anchors :: "string \<Rightarrow> string list option"

definition MAX_ARTICLE_URLS :: nat where
  "MAX_ARTICLE_URLS = 800"

definition seeds :: "string list" where
  "seeds = ['''', ''/news'', ''/latest'', ''/world'', ''/articles'', ''/section'', ''/topics'',
     ''/author'', ''/authors'', ''/contributors'', ''/staff'']"

definition article_words :: "string list" where
  "article_words = [''/article'', ''/news/'', ''/story'', ''/opinion'', ''/feature'',
     ''/analysis'', ''/reports'', ''/sport'', ''/sports'']"

definition index_words :: "string list" where
  "index_words = [''/author'', ''/authors'', ''/staff'', ''/contributors'', ''/profile'']"

fun match_dated :: "string \<Rightarrow> bool" where
  \<comment> \<open>\<open>/\d{4}/\d{1,2}/\d{1,2}/\<close> anchored at the start of a string\<close>
  "match_dated (s0 # y1 # y2 # y3 # y4 # s1 # rest) =
     (s0 = CHR ''/'' \<and> is_digit y1 \<and> is_digit y2 \<and> is_digit y3 \<and> is_digit y4 \<and>
      s1 = CHR ''/'' \<and>
      (case digits12 rest of
         Some (mn, s2 # r) \<Rightarrow>
           s2 = CHR ''/'' \<and>
           (case digits12 r of Some (dd, s3 # r') \<Rightarrow> s3 = CHR ''/'' | _ \<Rightarrow> False)
       | _ \<Rightarrow> False))"
| "match_dated s = False"

fun search_dated :: "string \<Rightarrow> bool" where
  "search_dated [] = False"
| "search_dated (c # cs) = (match_dated (c # cs) \<or> search_dated cs)"

definition depth :: "string \<Rightarrow> nat" where
  \<comment> \<open>\<open>len(path.strip('/').split('/'))\<close>\<close>
  "depth p =
     (let is_slash = (\<lambda>c. c = CHR ''/'');
          s = rev (dropWhile is_slash (rev (dropWhile is_slash p)))
      in length (filter is_slash s) + 1)"

definition article_like :: "string \<Rightarrow> bool" where
  "article_like p = (search_dated p \<or> list_ex (contains p) article_words)"

definition index_like :: "string \<Rightarrow> bool" where
  "index_like p = (list_ex (contains p) index_words \<or> depth p \<le> 3)"

definition strip_query :: "string \<Rightarrow> string" where
  \<comment> \<open>\<open>full.split('?')[0]\<close>\<close>
  "strip_query full = takeWhile (\<lambda>c. c \<noteq> CHR ''?'') full"

record crawl =
  to_visit :: "string list"
  seen :: "string list"
  article_links :: "string list"

definition visit_anchor :: "web \<Rightarrow> string \<Rightarrow> string \<Rightarrow> crawl \<Rightarrow> string \<Rightarrow> crawl" where
  \<comment> \<open>one turn of \<open>for a in soup.find_all('a', href=True)\<close>\<close>
  "visit_anchor w domain url st href =
     (let full = urljoin w url href in
      if \<not> contains (lower (netloc w full)) domain then st
      else
        let p = lower (path w full);
            st = (if article_like p
                  then st\<lparr>article_links := List.insert (strip_query full) (article_links st)\<rparr>
                  else st)
        in if index_like p \<and> full \<notin> set (seen st)
           then st\<lparr>to_visit := to_visit st @ [full]\<rparr> else st)"

definition crawl_step :: "web \<Rightarrow> string \<Rightarrow> crawl \<Rightarrow> crawl" where
  \<comment> \<open>one turn of the \<open>while\<close> loop\<close>
  "crawl_step w domain st =
     (case to_visit st of
        [] \<Rightarrow> st
      | url # rest \<Rightarrow>
          let st = st\<lparr>to_visit := rest\<rparr> in
          if url = [] \<or> url \<in> set (seen st) then st
          else
            let st = st\<lparr>seen := List.insert url (seen st)\<rparr> in
            case anchors w url of
              None \<Rightarrow> st
            | Some hrefs \<Rightarrow> foldl (\<lambda>st href. visit_anchor w domain url st href) st hrefs)"

definition crawling :: "crawl \<Rightarrow> bool" where
  \<comment> \<open>the condition of the \<open>while\<close> loop\<close>
  "crawling st = (to_visit st \<noteq> [] \<and> length (article_links st) < MAX_ARTICLE_URLS)"

text \<open>
  The loop need not end: a site can serve index pages with ever new same-domain links and
  no article link. \<open>crawl_loop n\<close> is the state after at most \<open>n\<close> turns, and
  \<open>find_article_links\<close> is \<open>None\<close> when the loop is still running after \<open>fuel\<close> turns.
\<close>

fun crawl_loop :: "web \<Rightarrow> string \<Rightarrow> nat \<Rightarrow> crawl \<Rightarrow> crawl" where
  "crawl_loop w domain 0 st = st"
| "crawl_loop w domain (Suc n) st =
     (if crawling st then crawl_loop w domain n (crawl_step w domain st) else st)"

definition crawl_start :: "web \<Rightarrow> string \<Rightarrow> crawl" where
  "crawl_start w base_url =
     \<lparr>to_visit = base_url # map (urljoin w base_url) seeds, seen = [], article_links = []\<rparr>"

definition crawl_domain :: "web \<Rightarrow> string \<Rightarrow> string" where
  \<comment> \<open>\<open>urlparse(base_url).netloc.lower()\<close>\<close>
  "crawl_domain w base_url = lower (netloc w base_url)"

definition find_article_links :: "web \<Rightarrow> string \<Rightarrow> nat \<Rightarrow> string list option" where
  "find_article_links w base_url fuel =
     (let st = crawl_loop w (crawl_domain w base_url) fuel (crawl_start w base_url)
      in if crawling st then None else Some (take MAX_ARTICLE_URLS (article_links st)))"

definition kept_by_filter :: "web \<Rightarrow> string \<Rightarrow> string \<Rightarrow> bool" where
  \<comment> \<open>\<open>u\<close> is a resolved anchor URL, without its query, whose lower-cased \<open>netloc\<close> has the
      crawl domain as a substring\<close>
  "kept_by_filter w base_url u =
     (\<exists>full. u = strip_query full \<and> contains (lower (netloc w full)) (crawl_domain w base_url))"

definition filtered :: "web \<Rightarrow> string \<Rightarrow> crawl \<Rightarrow> bool" where
  \<comment> \<open>the invariant of the crawl\<close>
  "filtered w base_url st = list_all (kept_by_filter w base_url) (article_links st)"

section \<open>The checkpoint writer\<close>

text \<open>
  \<^verbatim>\<open>
  def _atomic_write_json(path, obj):
      try:
          dirn = os.path.dirname(path) or '.'
          fd, tmp = tempfile.mkstemp(dir=dirn, prefix='.tmp_data_', text=True)
          with os.fdopen(fd, 'w', encoding='utf-8') as f:
              json.dump(obj, f, ensure_ascii=False, indent=2)
              f.flush()
              os.fsync(f.fileno())
          os.replace(tmp, path)
      except Exception:
          try:
              with open(path, 'w', encoding='utf-8') as f:
                  json.dump(obj, f, ensure_ascii=False, indent=2)
          except Exception:
              pass
  \<close>
  The file system is a map from paths to contents, and a write is the list of the states
  the file system goes through, one per operation that changes it; a reader, or a process
  killed at some point, finds one of these states (or the state before the call).
  \<open>json.dump\<close> writes the serialisation of \<open>obj\<close> chunk by chunk, so the payload is the list
  of its chunks and the complete document is their concatenation. The operating system
  is an input: the name \<open>mkstemp\<close> picks and, for each operation that can raise, whether
  it does. \<open>os.replace\<close> is atomic, and \<open>open(path, 'w')\<close> truncates the file.
\<close>

type_synonym fs = "string \<Rightarrow> string option"

record os_env =
  tmp_name :: string
  mkstemp_raises :: bool
  tmp_write_raises :: "nat option"
  fsync_raises :: bool
  replace_raises :: bool
  open_raises :: bool
  write_raises :: "nat option"

text \<open>
  \<open>tmp_write_raises = Some k\<close> says that the write of chunk number \<open>k\<close> (from 0) to the
  temporary file raises, \<open>write_raises\<close> the same for the direct write; \<open>fsync_raises\<close>
  stands for a failure of \<open>f.flush()\<close>, \<open>os.fsync\<close> or the closing of the file.
\<close>

fun dump :: "nat option \<Rightarrow> string \<Rightarrow> string list \<Rightarrow> fs \<Rightarrow> fs list \<times> bool" where
  \<comment> \<open>\<open>json.dump(obj, f)\<close> on the open file \<open>p\<close>: the states after each chunk written, and
      whether a write raised\<close>
  "dump raises p [] s = ([], False)"
| "dump raises p (c # cs) s =
     (if raises = Some 0 then ([], True)
      else
        let s' = s(p \<mapsto> (case s p of None \<Rightarrow> [] | Some old \<Rightarrow> old) @ c);
            (states, raised) = dump (map_option (\<lambda>k. k - 1) raises) p cs s'
        in (s' # states, raised))"

definition temp_write :: "os_env \<Rightarrow> string \<Rightarrow> string list \<Rightarrow> fs \<Rightarrow> fs list \<times> bool" where
  \<comment> \<open>the body of the outer \<open>try\<close>: its states, and whether it ran to its end\<close>
  "temp_write env p chunks s =
     (if mkstemp_raises env then ([], False)
      else
        let tmp = tmp_name env;
            s1 = s(tmp \<mapsto> []);
            (states, raised) = dump (tmp_write_raises env) tmp chunks s1;
            s2 = last (s1 # states)
        in if raised \<or> fsync_raises env \<or> replace_raises env then (s1 # states, False)
           else (s1 # states @ [s2(p := s2 tmp, tmp := None)], True))"

definition direct_write :: "os_env \<Rightarrow> string \<Rightarrow> string list \<Rightarrow> fs \<Rightarrow> fs list" where
  \<comment> \<open>the handler: \<open>open(path, 'w')\<close> truncates, then the chunks are written in place\<close>
  "direct_write env p chunks s =
     (if open_raises env then []
      else let s1 = s(p \<mapsto> []) in s1 # fst (dump (write_raises env) p chunks s1))"

definition atomic_write_json :: "os_env \<Rightarrow> string \<Rightarrow> string list \<Rightarrow> fs \<Rightarrow> fs list" where
  "atomic_write_json env p chunks s =
     (let (states, finished) = temp_write env p chunks s
      in if finished then states
         else states @ direct_write env p chunks (last (s # states)))"

definition observed :: "string \<Rightarrow> fs list \<Rightarrow> string option list" where
  \<comment> \<open>what is found at a path in each state of a write\<close>
  "observed p states = map (\<lambda>s. s p) states"

definition no_fault :: "os_env \<Rightarrow> bool" where
  \<comment> \<open>no operation of the temporary-file path raises\<close>
  "no_fault env =
     (\<not> mkstemp_raises env \<and> tmp_write_raises env = None \<and> \<not> fsync_raises env \<and>
      \<not> replace_raises env)"

section \<open>Example inputs\<close>

definition ex_entry :: "string \<Rightarrow> int \<Rightarrow> entry" where
  "ex_entry n c = \<lparr>name = n, beat = ''News'', latest_article = ''T'', article_url = ''u'',
     publication_date = ''Unknown'', articles_count = c, beat_counts = Some [(''News'', c)]\<rparr>"

definition ex_page :: "string list \<Rightarrow> string \<Rightarrow> page" where
  "ex_page as s = \<lparr>authors = as, page_title = ''T'', pub_date = ''Unknown'', page_section = s\<rparr>"

definition thirty_names :: "string list" where
  "thirty_names = [[a, b]. a \<leftarrow> ''AB'', b \<leftarrow> ''abcdefghijklmno'']"

definition crowded_site :: "string \<Rightarrow> page option" where
  \<comment> \<open>a first page signed by thirty authors, and one author on every other page\<close>
  "crowded_site u = (if u = ''/news/1'' then Some (ex_page thirty_names ''News'')
     else Some (ex_page [''Zed Young''] ''News''))"

definition byline_site :: "string \<Rightarrow> page option" where
  \<comment> \<open>every page is signed with its own URL\<close>
  "byline_site u = Some (ex_page [u] ''News'')"

definition jane_urls :: "string list" where
  "jane_urls = [''/politics/a'', ''/politics/b'', ''/politics/c'',
     ''/sport/d'', ''/sport/e'', ''/sport/f'', ''/sport/g'']"

definition jane_site :: "string \<Rightarrow> page option" where
  \<comment> \<open>seven articles of one author: three on politics, then four on sports\<close>
  "jane_site u = (if contains u ''/politics/''
     then Some (ex_page [''Jane Doe''] ''Politics'')
     else Some (ex_page [''Jane Doe''] ''Sports''))"

text \<open>
  A site whose front page links to an article on its own host and to one on a host that
  only starts with the site's name. \<open>ex_netloc\<close> and \<open>ex_path\<close> split an absolute
  \<open>https\<close> URL without port, query or fragment as \<open>urlparse\<close> does, and \<open>ex_urljoin\<close> joins
  as \<open>urljoin\<close> does when the reference is an absolute URL, or is empty or an absolute path
  and the base is the site's root.
\<close>

definition ex_netloc :: "string \<Rightarrow> string" where
  "ex_netloc u = takeWhile (\<lambda>c. c \<noteq> CHR ''/'') (drop 8 u)"

definition ex_path :: "string \<Rightarrow> string" where
  "ex_path u = dropWhile (\<lambda>c. c \<noteq> CHR ''/'') (drop 8 u)"

definition ex_urljoin :: "string \<Rightarrow> string \<Rightarrow> string" where
  "ex_urljoin b r = (if is_prefix_of ''https://'' r then r else ''https://www.example.com'' @ r)"

definition ex_web :: web where
  "ex_web = \<lparr>urljoin = ex_urljoin, netloc = ex_netloc, path = ex_path,
     anchors = (\<lambda>u. if u = ''https://www.example.com''
       then Some [''/news/budget-vote'', ''https://www.example.com.evil.org/news/scoop'']
       else None)\<rparr>"

text \<open>A snapshot on disk, a new payload in three chunks, and two operating systems.\<close>

definition ex_disk :: fs where
  "ex_disk = Map.empty(''data.json'' \<mapsto> ''{\"profiles\": []}'')"

definition ex_payload :: "string list" where
  "ex_payload = [''{\"profiles\": ['', ''{\"name\": \"Jane Doe\"}'', '']}'']"

definition ex_os :: os_env where
  "ex_os = \<lparr>tmp_name = ''.tmp_data_k3x9'', mkstemp_raises = False, tmp_write_raises = None,
     fsync_raises = False, replace_raises = False, open_raises = False, write_raises = None\<rparr>"

definition ex_os_readonly_dir :: os_env where
  \<comment> \<open>no file can be created in the directory, the snapshot itself is writable\<close>
  "ex_os_readonly_dir = ex_os\<lparr>mkstemp_raises := True\<rparr>"
section \<open>Properties of name normalisation\<close>

lemma is_punct_iff:
  "is_punct c = (of_char c \<in> {46, 44, 47, 40, 41, 91, 93, 42, 34, 39, 96 :: nat})"
proof -
  have "\<And>d. (c = d) = (of_char c = (of_char d :: nat))" by simp
  then show ?thesis unfolding is_punct_def by (simp del: of_char_eq_iff) 
qed

lemma lower_chr_idem: "lower_chr (lower_chr c) = lower_chr c"
  by (simp add: lower_chr_def is_upper_def Let_def)

lemma upper_chr_idem: "upper_chr (upper_chr c) = upper_chr c"
  by (auto simp: upper_chr_def is_lower_def Let_def)

lemma is_cased_lower_chr: "is_cased (lower_chr c) = is_cased c"
  by (auto simp: lower_chr_def is_cased_def is_upper_def is_lower_def Let_def)

lemma is_cased_upper_chr: "is_cased (upper_chr c) = is_cased c"
  by (auto simp: upper_chr_def is_cased_def is_upper_def is_lower_def Let_def)

lemma space_lower_chr: "is_space c \<Longrightarrow> lower_chr c = c"
  by (auto simp: lower_chr_def is_space_def is_upper_def Let_def)

lemma space_upper_chr: "is_space c \<Longrightarrow> upper_chr c = c"
  by (auto simp: upper_chr_def is_space_def is_lower_def Let_def)

lemma is_space_lower_chr: "is_space (lower_chr c) = is_space c"
  by (auto simp: lower_chr_def is_space_def is_upper_def Let_def)

lemma is_space_upper_chr: "is_space (upper_chr c) = is_space c"
  by (auto simp: upper_chr_def is_space_def is_lower_def Let_def)

lemma is_punct_lower_chr: "is_punct (lower_chr c) = is_punct c"
  by (auto simp: is_punct_iff lower_chr_def is_upper_def Let_def)

lemma is_punct_upper_chr: "is_punct (upper_chr c) = is_punct c"
  by (auto simp: is_punct_iff upper_chr_def is_lower_def Let_def)

lemma title_from_idem: "title_from p (title_from p s) = title_from p s"
  by (induction s arbitrary: p)
    (simp_all add: lower_chr_idem upper_chr_idem is_cased_lower_chr is_cased_upper_chr)

lemma length_title_from: "length (title_from p s) = length s"
  by (induction s arbitrary: p) simp_all


lemma collapse_ws_hd:
  "s \<noteq> [] \<Longrightarrow> \<not> is_space (hd s) \<Longrightarrow> collapse_ws s \<noteq> [] \<and> hd (collapse_ws s) = hd s"
  by (cases s) simp_all

lemma dropWhile_hd: "dropWhile P s = [] \<or> \<not> P (hd (dropWhile P s))"
  by (induction s) simp_all

lemma single_blanks_collapse_ws: "single_blanks (collapse_ws s)"
proof (induction s rule: collapse_ws.induct)
  case 1
  show ?case by simp
next
  case (2 c cs)
  show ?case
  proof (cases "is_space c")
    case True
    let ?r = "dropWhile is_space cs"
    have "?r = [] \<or> \<not> is_space (hd ?r)" by (rule dropWhile_hd)
    then have "collapse_ws ?r = [] \<or> \<not> is_space (hd (collapse_ws ?r))"
    proof
      assume "?r = []"
      then show ?thesis by (simp only: collapse_ws.simps simp_thms)
    next
      assume n: "\<not> is_space (hd ?r)"
      show ?thesis
      proof (cases "?r = []")
        case True
        then show ?thesis by (simp only: collapse_ws.simps simp_thms)
      next
        case False
        from collapse_ws_hd [OF False n] n show ?thesis by (simp only: simp_thms)
      qed
    qed
    with True 2 show ?thesis by simp
  next
    case False
    with 2 show ?thesis by simp
  qed
qed

lemma collapse_ws_id: "single_blanks s \<Longrightarrow> collapse_ws s = s"
proof (induction s rule: collapse_ws.induct)
  case 1
  show ?case by simp
next
  case (2 c cs)
  show ?case
  proof (cases "is_space c")
    case True
    with 2(3) have "dropWhile is_space cs = cs" by (cases cs) auto
    with True 2 show ?thesis by simp
  next
    case False
    with 2 show ?thesis by simp
  qed
qed

lemma single_blanks_dropWhile: "single_blanks s \<Longrightarrow> single_blanks (dropWhile P s)"
  by (induction s) simp_all

lemma single_blanks_append: "single_blanks (xs @ ys) \<Longrightarrow> single_blanks xs"
proof (induction xs)
  case Nil
  show ?case by simp
next
  case (Cons x xs)
  then show ?case by (cases xs) (auto split: if_splits)
qed

lemma rev_dropWhile_rev: "rev (dropWhile P (rev s)) @ rev (takeWhile P (rev s)) = s"
proof -
  have "rev (takeWhile P (rev s) @ dropWhile P (rev s)) = s" by simp
  then show ?thesis by (simp only: rev_append)
qed

lemma single_blanks_strip: "single_blanks s \<Longrightarrow> single_blanks (strip s)"
proof -
  assume a: "single_blanks s"
  let ?y = "dropWhile is_space s"
  have "single_blanks ?y" using a by (rule single_blanks_dropWhile)
  then have "single_blanks (rev (dropWhile is_space (rev ?y)) @ rev (takeWhile is_space (rev ?y)))"
    by (simp only: rev_dropWhile_rev)
  then show ?thesis unfolding strip_def by (rule single_blanks_append)
qed

lemma set_collapse_ws: "set (collapse_ws s) \<subseteq> insert (CHR '' '') (set s)"
proof (induction s rule: collapse_ws.induct)
  case 1
  show ?case by simp
next
  case (2 c cs)
  show ?case
  proof (cases "is_space c")
    case True
    with 2 show ?thesis using set_dropWhileD [of _ is_space cs] by auto
  next
    case False
    with 2 show ?thesis by auto
  qed
qed

lemma set_strip: "set (strip s) \<subseteq> set s"
proof
  fix x
  assume "x \<in> set (strip s)"
  then have "x \<in> set (dropWhile is_space (rev (dropWhile is_space s)))"
    by (simp add: strip_def)
  then have "x \<in> set (rev (dropWhile is_space s))" by (rule set_dropWhileD)
  then have "x \<in> set (dropWhile is_space s)" by simp
  then show "x \<in> set s" by (rule set_dropWhileD)
qed

lemma strip_ends: "strip s = [] \<or> (\<not> is_space (hd (strip s)) \<and> \<not> is_space (last (strip s)))"
proof -
  let ?y = "dropWhile is_space s"
  let ?z = "dropWhile is_space (rev ?y)"
  have z: "?z = [] \<or> \<not> is_space (hd ?z)" by (rule dropWhile_hd)
  show ?thesis
  proof (cases "?z = []")
    case True
    then have "strip s = []" unfolding strip_def by (simp only: rev.simps)
    then show ?thesis ..
  next
    case False
    with z have "\<not> is_space (hd ?z)" by blast
    then have l: "\<not> is_space (last (rev ?z))" by (metis last_rev)
    have "rev ?z @ rev (takeWhile is_space (rev ?y)) = ?y" by (rule rev_dropWhile_rev)
    then have "hd ?y = hd (rev ?z)" using False by (metis hd_append2 rev_is_Nil_conv)
    moreover have "?y \<noteq> []" using False by (metis dropWhile.simps(1) rev.simps(1))
    ultimately have "\<not> is_space (hd (rev ?z))" using dropWhile_hd [of is_space s] by metis
    with l show ?thesis unfolding strip_def by blast
  qed
qed

lemma strip_id: "s = [] \<or> (\<not> is_space (hd s) \<and> \<not> is_space (last s)) \<Longrightarrow> strip s = s"
proof (cases "s = []")
  case True
  then show ?thesis by (simp add: strip_def)
next
  case False
  assume "s = [] \<or> (\<not> is_space (hd s) \<and> \<not> is_space (last s))"
  with False have h: "\<not> is_space (hd s)" and l: "\<not> is_space (last s)" by auto
  from False h have 1: "dropWhile is_space s = s" by (cases s) auto
  from False l have 2: "dropWhile is_space (rev s) = rev s" by (cases "rev s") (auto simp: last_rev hd_rev)
  show ?thesis by (simp add: strip_def 1 2)
qed


lemma hd_title_from:
  "s \<noteq> [] \<Longrightarrow> hd (title_from p s) = (if p then lower_chr (hd s) else upper_chr (hd s))"
  by (cases s) simp_all

lemma single_blanks_title_from: "single_blanks (title_from p s) = single_blanks s"
proof (induction s arbitrary: p)
  case Nil
  show ?case by simp
next
  case (Cons c cs)
  have sp: "is_space (if p then lower_chr c else upper_chr c) = is_space c"
    by (simp add: is_space_lower_chr is_space_upper_chr)
  have nx: "cs \<noteq> [] \<Longrightarrow> is_space (hd (title_from (is_cased c) cs)) = is_space (hd cs)"
    by (simp add: hd_title_from is_space_lower_chr is_space_upper_chr)
  have em: "(title_from (is_cased c) cs = []) = (cs = [])"
    by (cases cs) simp_all
  show ?case
  proof (cases "is_space c")
    case True
    then have lu: "lower_chr c = c" "upper_chr c = c"
      by (simp_all add: space_lower_chr space_upper_chr)
    show ?thesis
    proof (cases "cs = []")
      case True
      with lu show ?thesis by simp
    next
      case False
      with nx have "is_space (hd (title_from (is_cased c) cs)) = is_space (hd cs)" by simp
      with lu False em Cons.IH [of "is_cased c"] show ?thesis by simp
    qed
  next
    case False
    with sp Cons.IH [of "is_cased c"] show ?thesis by simp
  qed
qed

lemma no_punct_title_from:
  "list_all (\<lambda>c. \<not> is_punct c) (title_from p s) = list_all (\<lambda>c. \<not> is_punct c) s"
  by (induction s arbitrary: p) (simp_all add: is_punct_lower_chr is_punct_upper_chr)

lemma last_title_from:
  "s \<noteq> [] \<Longrightarrow> is_space (last (title_from p s)) = is_space (last s)"
proof (induction s arbitrary: p)
  case Nil
  then show ?case by simp
next
  case (Cons c cs)
  have em: "(title_from (is_cased c) cs = []) = (cs = [])"
    by (cases cs) simp_all
  show ?case
  proof (cases "cs = []")
    case True
    then show ?thesis by (simp add: is_space_lower_chr is_space_upper_chr)
  next
    case False
    with Cons.IH [of "is_cased c"] em show ?thesis by simp
  qed
qed

lemma replace_punct_id: "list_all (\<lambda>c. \<not> is_punct c) s \<Longrightarrow> replace_punct s = s"
  unfolding replace_punct_def by (induction s) simp_all

lemma no_punct_cleaned:
  "list_all (\<lambda>c. \<not> is_punct c) (strip (collapse_ws (replace_punct s)))"
proof -
  have b: "\<not> is_punct (CHR '' '')" by (simp add: is_punct_def)
  have "\<forall>c \<in> set (replace_punct s). \<not> is_punct c"
    unfolding replace_punct_def using b by auto
  with b have "\<forall>c \<in> set (collapse_ws (replace_punct s)). \<not> is_punct c"
    using set_collapse_ws [of "replace_punct s"] by auto
  then have "\<forall>c \<in> set (strip (collapse_ws (replace_punct s))). \<not> is_punct c"
    using set_strip [of "collapse_ws (replace_punct s)"] by auto
  then show ?thesis by (simp add: list_all_iff)
qed

lemma normalize_name_fixed:
  assumes t: "t = strip (collapse_ws (replace_punct x))" and l: "\<not> length t \<le> 1"
    and b: "\<not> by_prefixed (title t)"
  shows "normalize_name (title t) = title t"
proof -
  let ?n = "title t"
  from l have ne: "t \<noteq> []" by auto
  then have nne: "?n \<noteq> []" by (cases t) (simp_all add: title_def)
  have ends: "\<not> is_space (hd t) \<and> \<not> is_space (last t)"
    using strip_ends [of "collapse_ws (replace_punct x)"] ne t by simp
  have "\<not> is_space (hd ?n) \<and> \<not> is_space (last ?n)"
    using ends ne by (simp add: title_def hd_title_from last_title_from is_space_upper_chr)
  then have 1: "strip ?n = ?n" by (simp add: strip_id)
  from b have 2: "strip_by ?n = ?n" by (simp add: strip_by_def)
  have "list_all (\<lambda>c. \<not> is_punct c) ?n"
    unfolding title_def no_punct_title_from t by (rule no_punct_cleaned)
  then have 3: "replace_punct ?n = ?n" by (rule replace_punct_id)
  have "single_blanks t"
    unfolding t by (rule single_blanks_strip) (rule single_blanks_collapse_ws)
  then have "single_blanks ?n" by (simp add: title_def single_blanks_title_from)
  then have 4: "collapse_ws ?n = ?n" by (rule collapse_ws_id)
  have 5: "length ?n = length t" by (simp add: title_def length_title_from)
  have 6: "title ?n = ?n" by (simp add: title_def title_from_idem)
  show ?thesis
    unfolding normalize_name_def Let_def using nne l by (simp add: 1 2 3 4 5 6)
qed

lemma ascii_lower_chr: "(of_char c :: nat) < 128 \<Longrightarrow> (of_char (lower_chr c) :: nat) < 128"
  by (auto simp: lower_chr_def is_upper_def Let_def)

lemma ascii_upper_chr: "(of_char c :: nat) < 128 \<Longrightarrow> (of_char (upper_chr c) :: nat) < 128"
  by (auto simp: upper_chr_def is_lower_def Let_def)

lemma is_ascii_title_from: "is_ascii s \<Longrightarrow> is_ascii (title_from p s)"
  unfolding is_ascii_def
  by (induction s arbitrary: p) (simp_all add: ascii_lower_chr ascii_upper_chr)

lemma is_ascii_subset: "is_ascii s \<Longrightarrow> set t \<subseteq> insert (CHR '' '') (set s) \<Longrightarrow> is_ascii t"
  unfolding is_ascii_def list_all_iff by auto

lemma is_ascii_strip: "is_ascii s \<Longrightarrow> is_ascii (strip s)"
  using set_strip [of s] by (auto intro: is_ascii_subset)

lemma is_ascii_strip_by: "is_ascii s \<Longrightarrow> is_ascii (strip_by s)"
proof -
  assume a: "is_ascii s"
  have "set (dropWhile is_colon_or_space (drop 2 s)) \<subseteq> set s"
    by (meson set_dropWhileD set_drop_subset subsetD subsetI)
  with a show ?thesis unfolding strip_by_def by (auto intro: is_ascii_subset)
qed

lemma is_ascii_replace_punct: "is_ascii s \<Longrightarrow> is_ascii (replace_punct s)"
  by (rule is_ascii_subset) (auto simp: replace_punct_def)

lemma is_ascii_collapse_ws: "is_ascii s \<Longrightarrow> is_ascii (collapse_ws s)"
  using set_collapse_ws [of s] by (rule is_ascii_subset [rotated])

lemma is_ascii_normalize_name: "is_ascii s \<Longrightarrow> is_ascii (normalize_name s)"
proof -
  assume "is_ascii s"
  then have "is_ascii (strip (collapse_ws (replace_punct (strip_by (strip s)))))"
    by (intro is_ascii_strip is_ascii_collapse_ws is_ascii_replace_punct is_ascii_strip_by)
  then have "is_ascii (title (strip (collapse_ws (replace_punct (strip_by (strip s))))))"
    unfolding title_def by (rule is_ascii_title_from)
  then show ?thesis by (simp add: normalize_name_def Let_def is_ascii_def)
qed

text \<open>
  Claim C2, as amended. For an ASCII name, the normalised name is ASCII again, and
  normalising it a second time changes nothing, provided the normalised name does not
  itself start with \<open>By\<close> followed by a colon or whitespace: the prefix is removed once
  per call, before the punctuation is blanked, so a second call removes a second \<open>By\<close>.
  Names with other characters are left out: \<open>str.title\<close> is not idempotent on them.
\<close>

theorem normalize_name_idempotent:
  assumes "is_ascii s" and "\<not> by_prefixed (normalize_name s)"
  shows "is_ascii (normalize_name s) \<and>
         normalize_name (normalize_name s) = normalize_name s"
proof -
  have "normalize_name (normalize_name s) = normalize_name s"
  proof (cases "normalize_name s = []")
    case True
    then show ?thesis by (simp add: normalize_name_def)
  next
    case False
    define t where "t = strip (collapse_ws (replace_punct (strip_by (strip s))))"
    from False have l: "\<not> length t \<le> 1" and n: "normalize_name s = title t"
      unfolding t_def normalize_name_def Let_def by (auto split: if_splits)
    from assms(2) n have "\<not> by_prefixed (title t)" by simp
    with t_def l have "normalize_name (title t) = title t" by (rule normalize_name_fixed)
    with n show ?thesis by simp
  qed
  with assms(1) show ?thesis by (simp add: is_ascii_normalize_name)
qed

theorem normalize_name_idempotent_witness:
  "is_ascii ''By   John Smith.'' \<and>
   \<not> by_prefixed (normalize_name ''By   John Smith.'') \<and>
   normalize_name ''By   John Smith.'' = ''John Smith'' \<and>
   normalize_name (normalize_name ''By   John Smith.'') = ''John Smith''"
proof -
  have a: "is_ascii ''By   John Smith.''" by code_simp
  have n: "normalize_name ''By   John Smith.'' = ''John Smith''" by code_simp
  have b: "\<not> by_prefixed ''John Smith''" by code_simp
  from a b n normalize_name_idempotent [of "''By   John Smith.''"] show ?thesis by simp
qed

text \<open>
  Claim C2 as stated fails, on an ASCII name already: \<open>By By John\<close> normalises to
  \<open>By John\<close>, which normalises to \<open>John\<close>.
\<close>

theorem normalize_name_not_idempotent:
  "is_ascii ''By By John'' \<and>
   normalize_name ''By By John'' = ''By John'' \<and>
   normalize_name (normalize_name ''By By John'') = ''John''"
  by code_simp

section \<open>Properties of the prefer-newer rule\<close>

lemma parse_iso_unknown: "parse_iso [] = None" "parse_iso ''Unknown'' = None"
  by code_simp+

lemma sum_upt_mono: "m \<le> n \<Longrightarrow> sum_list (map f [1..<m]) \<le> sum_list (map (f :: nat \<Rightarrow> nat) [1..<n])"
proof (induction n)
  case 0
  then show ?case by simp
next
  case (Suc n)
  show ?case
  proof (cases "m = Suc n")
    case True
    then show ?thesis by simp
  next
    case False
    with Suc have le: "sum_list (map f [1..<m]) \<le> sum_list (map f [1..<n])" by simp
    show ?thesis
    proof (cases "1 \<le> n")
      case True
      then have "[1..<Suc n] = [1..<n] @ [n]" by simp
      with le show ?thesis by simp
    next
      case False
      with Suc.prems \<open>m \<noteq> Suc n\<close> have "m = 0" by simp
      then show ?thesis by simp
    qed
  qed
qed

lemma sum_upt_Suc: "1 \<le> m \<Longrightarrow> sum_list (map f [1..<Suc m]) = sum_list (map f [1..<m]) + (f m :: nat)"
  by simp

lemma months: "[1..<13] = [1, 2, 3, 4, 5, 6, 7, 8, 9, 10, 11, 12 :: nat]"
  by code_simp

lemma year_length: "days_before_month y 13 = days_in_year y"
  unfolding days_before_month_def months
  by (simp add: days_in_year_def days_in_month_def)

lemma within_month:
  assumes "1 \<le> m" and "d \<le> days_in_month y m" and "m < m'"
  shows "days_before_month y m + d \<le> days_before_month y m'"
proof -
  from assms(1) have "days_before_month y (Suc m) = days_before_month y m + days_in_month y m"
    unfolding days_before_month_def by (rule sum_upt_Suc)
  moreover from assms(3) have "days_before_month y (Suc m) \<le> days_before_month y m'"
    unfolding days_before_month_def by (intro sum_upt_mono) simp
  ultimately show ?thesis using assms(2) by simp
qed

lemma within_year:
  assumes "1 \<le> y" and "1 \<le> m" and "m \<le> 12" and "d \<le> days_in_month y m" and "y < y'"
  shows "days_before_year y + days_before_month y m + d \<le> days_before_year y'"
proof -
  from assms(2-4) have "days_before_month y m + d \<le> days_before_month y 13"
    by (intro within_month) simp_all
  then have "days_before_month y m + d \<le> days_in_year y" by (simp add: year_length)
  moreover from assms(1) have "days_before_year (Suc y) = days_before_year y + days_in_year y"
    unfolding days_before_year_def by (rule sum_upt_Suc)
  moreover from assms(5) have "days_before_year (Suc y) \<le> days_before_year y'"
    unfolding days_before_year_def by (intro sum_upt_mono) simp
  ultimately show ?thesis by simp
qed

lemma date_less_day_number:
  assumes a: "datetime_date y m d = Some a" and b: "datetime_date y' m' d' = Some b"
    and l: "date_less a b"
  shows "day_number a < day_number b"
proof -
  from a have va: "1 \<le> y" "1 \<le> m" "m \<le> 12" "1 \<le> d" "d \<le> days_in_month y m" "a = Date y m d"
    by (auto simp: datetime_date_def split: if_splits)
  from b have vb: "1 \<le> d'" "b = Date y' m' d'"
    by (auto simp: datetime_date_def split: if_splits)
  from l va(6) vb(2) consider "y < y'" | "y = y'" "m < m'" | "y = y'" "m = m'" "d < d'"
    by (auto simp: date_less_def)
  then show ?thesis
  proof cases
    case 1
    from within_year [OF va(1,2,3,5) 1] vb(1) show ?thesis
      by (simp add: day_number_def va(6) vb(2))
  next
    case 2
    from within_month [OF va(2,5) 2(2)] vb(1) 2(1) show ?thesis
      by (simp add: day_number_def va(6) vb(2))
  next
    case 3
    then show ?thesis by (simp add: day_number_def va(6) vb(2))
  qed
qed

lemma date_less_iff_day_number:
  assumes a: "datetime_date y m d = Some a" and b: "datetime_date y' m' d' = Some b"
  shows "date_less a b = (day_number a < day_number b)"
proof
  assume "date_less a b"
  with a b show "day_number a < day_number b" by (rule date_less_day_number)
next
  assume t: "day_number a < day_number b"
  have "date_less a b \<or> a = b \<or> date_less b a"
    by (cases a; cases b) (auto simp: date_less_def)
  then show "date_less a b"
  proof (elim disjE)
    assume "a = b"
    with t show ?thesis by simp
  next
    assume "date_less b a"
    with b a have "day_number b < day_number a" by (rule date_less_day_number)
    with t show ?thesis by simp
  qed
qed

lemma parse_iso_valid:
  "parse_iso s = Some a \<Longrightarrow> \<exists>y m d. datetime_date y m d = Some a"
  by (auto simp: parse_iso_def split: option.splits prod.splits)

text \<open>
  Claim C3. An empty or \<open>Unknown\<close> candidate never replaces; a known candidate always
  replaces an empty or \<open>Unknown\<close> existing date; when both strings parse to calendar
  dates the candidate replaces exactly when its date is strictly later (by year, month
  and day, which is the order of the day numbers); and when both are
  known and one does not parse, exactly when the candidate string is strictly longer.
\<close>

theorem prefer_newer_cases:
  "(c = [] \<or> c = ''Unknown'' \<longrightarrow> \<not> prefer_newer e c) \<and>
   (c \<noteq> [] \<and> c \<noteq> ''Unknown'' \<and> (e = [] \<or> e = ''Unknown'') \<longrightarrow> prefer_newer e c) \<and>
   (parse_iso c = Some cd \<and> parse_iso e = Some ed \<longrightarrow>
      prefer_newer e c = date_less ed cd \<and> date_less ed cd = (day_number ed < day_number cd)) \<and>
   (c \<noteq> [] \<and> c \<noteq> ''Unknown'' \<and> e \<noteq> [] \<and> e \<noteq> ''Unknown'' \<and>
      (parse_iso c = None \<or> parse_iso e = None) \<longrightarrow>
      prefer_newer e c = (length e < length c))"
proof -
  have 1: "c = [] \<or> c = ''Unknown'' \<longrightarrow> \<not> prefer_newer e c"
    by (auto simp: prefer_newer_def)
  have 2: "c \<noteq> [] \<and> c \<noteq> ''Unknown'' \<and> (e = [] \<or> e = ''Unknown'') \<longrightarrow> prefer_newer e c"
    by (auto simp: prefer_newer_def)
  have 3: "parse_iso c = Some cd \<and> parse_iso e = Some ed \<longrightarrow>
      prefer_newer e c = date_less ed cd \<and> date_less ed cd = (day_number ed < day_number cd)"
  proof
    assume p: "parse_iso c = Some cd \<and> parse_iso e = Some ed"
    with parse_iso_unknown have "c \<noteq> []" "c \<noteq> ''Unknown''" "e \<noteq> []" "e \<noteq> ''Unknown''"
      by auto
    with p have "prefer_newer e c = date_less ed cd"
      by (simp add: prefer_newer_def)
    moreover have "date_less ed cd = (day_number ed < day_number cd)"
    proof -
      from p parse_iso_valid [of e ed] obtain y m d where "datetime_date y m d = Some ed"
        by blast
      moreover from p parse_iso_valid [of c cd]
      obtain y' m' d' where "datetime_date y' m' d' = Some cd" by blast
      ultimately show ?thesis by (rule date_less_iff_day_number)
    qed
    ultimately show "prefer_newer e c = date_less ed cd \<and>
        date_less ed cd = (day_number ed < day_number cd)" ..
  qed
  have 4: "c \<noteq> [] \<and> c \<noteq> ''Unknown'' \<and> e \<noteq> [] \<and> e \<noteq> ''Unknown'' \<and>
      (parse_iso c = None \<or> parse_iso e = None) \<longrightarrow>
      prefer_newer e c = (length e < length c)"
    by (auto simp: prefer_newer_def split: option.splits)
  from 1 2 3 4 show ?thesis by blast
qed

theorem prefer_newer_cases_witness:
  "prefer_newer ''2024-01-01'' ''2024-02-01'' \<and>
   prefer_newer ''Unknown'' ''2024-02-01'' \<and>
   \<not> prefer_newer ''2024-02-01'' ''Unknown'' \<and>
   prefer_newer ''2024-02-30'' ''March 3rd, 2024''"
proof -
  have c: "parse_iso ''2024-02-01'' = Some (Date 2024 2 1)" by code_simp
  have e: "parse_iso ''2024-01-01'' = Some (Date 2024 1 1)" by code_simp
  have l: "date_less (Date 2024 1 1) (Date 2024 2 1)" by (simp add: date_less_def)
  have n: "parse_iso ''2024-02-30'' = None" by code_simp
  have a: "prefer_newer ''2024-01-01'' ''2024-02-01''"
    using prefer_newer_cases [of "''2024-02-01''" "''2024-01-01''" "Date 2024 2 1" "Date 2024 1 1"]
      c e l by simp
  have b: "prefer_newer ''Unknown'' ''2024-02-01''"
    using prefer_newer_cases [of "''2024-02-01''" "''Unknown''"] by simp
  have d: "\<not> prefer_newer ''2024-02-01'' ''Unknown''"
    using prefer_newer_cases [of "''Unknown''" "''2024-02-01''"] by simp
  have f: "prefer_newer ''2024-02-30'' ''March 3rd, 2024''"
    using prefer_newer_cases [of "''March 3rd, 2024''" "''2024-02-30''"] n by simp
  from a b d f show ?thesis by simp
qed

section \<open>Properties of finalisation\<close>

lemma strip_no_space: "list_all (\<lambda>c. \<not> is_space c) s \<Longrightarrow> strip s = s"
proof (cases "s = []")
  case True
  then show ?thesis by (simp add: strip_def)
next
  case False
  assume "list_all (\<lambda>c. \<not> is_space c) s"
  with False have "\<not> is_space (hd s) \<and> \<not> is_space (last s)"
    by (simp add: list_all_iff)
  then show ?thesis by (simp add: strip_id)
qed

lemma no_space_lower: "list_all (\<lambda>c. \<not> is_space c) (lower s) = list_all (\<lambda>c. \<not> is_space c) s"
  by (induction s) (simp_all add: lower_def is_space_lower_chr)

lemma blacklist_no_space: "w \<in> set blacklist \<Longrightarrow> list_all (\<lambda>c. \<not> is_space c) w"
  by (auto simp: blacklist_def is_space_def)

lemma blacklisted_lower:
  assumes "lower n \<in> set blacklist"
  shows "lower (strip n) \<in> set blacklist"
proof -
  from assms have "list_all (\<lambda>c. \<not> is_space c) (lower n)" by (rule blacklist_no_space)
  then have "strip n = n" by (simp add: no_space_lower strip_no_space)
  with assms show ?thesis by simp
qed

lemma finalize_entry_Some:
  assumes "fst (finalize_entry v) = Some p"
  shows "name p = name v \<and> articles_count p = articles_count v \<and>
         lower (strip (name v)) \<notin> set blacklist \<and> lower (strip (name v)) \<noteq> []"
  using assms
  by (auto simp: finalize_entry_def Let_def split: if_splits option.splits list.splits)

lemma set_finalize_profiles:
  "set (fst (finalize_profiles pm)) = {p. \<exists>k v. (k, v) \<in> set pm \<and> fst (finalize_entry v) = Some p}"
proof -
  let ?ps = "List.map_filter (\<lambda>(k, v). fst (finalize_entry v)) pm"
  have "take (max 30 (length (sort_profiles ?ps))) (sort_profiles ?ps) = sort_profiles ?ps"
    by simp
  then have "set (fst (finalize_profiles pm)) = set ?ps"
    by (simp add: finalize_profiles_def Let_def sort_profiles_def)
  also have "\<dots> = {p. \<exists>k v. (k, v) \<in> set pm \<and> fst (finalize_entry v) = Some p}"
    by (force simp: List.map_filter_def image_iff)
  finally show ?thesis .
qed

text \<open>
  Claim C5. No profile of the finalised list has a display name whose lower-cased form
  is on the blacklist, whatever the map holds; so no profile is named \<open>Staff\<close>.
\<close>

theorem finalize_drops_blacklisted:
  "\<forall>p \<in> set (fst (finalize_profiles pm)).
     lower (name p) \<notin> set blacklist \<and> name p \<noteq> ''Staff''"
proof
  fix p
  assume "p \<in> set (fst (finalize_profiles pm))"
  then obtain k v where "(k, v) \<in> set pm" and s: "fst (finalize_entry v) = Some p"
    by (auto simp: set_finalize_profiles)
  from finalize_entry_Some [OF s] have n: "name p = name v"
    and b: "lower (strip (name v)) \<notin> set blacklist" by simp_all
  from b blacklisted_lower [of "name v"] n have 1: "lower (name p) \<notin> set blacklist" by auto
  have "lower ''Staff'' \<in> set blacklist" by code_simp
  with 1 have 2: "name p \<noteq> ''Staff''" by auto
  from 1 2 show "lower (name p) \<notin> set blacklist \<and> name p \<noteq> ''Staff''" ..
qed

theorem finalize_drops_blacklisted_witness:
  "map name (fst (finalize_profiles
      [(''staff'', ex_entry ''Staff'' 9), (''jane doe'', ex_entry ''Jane Doe'' 2)])) = [''Jane Doe''] \<and>
   lower ''Jane Doe'' \<notin> set blacklist"
proof -
  let ?pm = "[(''staff'', ex_entry ''Staff'' 9), (''jane doe'', ex_entry ''Jane Doe'' 2)]"
  have ev: "fst (finalize_profiles ?pm) =
    [\<lparr>name = ''Jane Doe'', beat = ''News'', latest_article = ''T'', article_url = ''u'',
       publication_date = ''Unknown'', articles_count = 2\<rparr>]" by code_simp
  from finalize_drops_blacklisted [of ?pm] have "lower ''Jane Doe'' \<notin> set blacklist"
    unfolding ev by simp
  with ev show ?thesis by simp
qed

text \<open>
  Claim C6. In the finalised list a profile comes before another only if its article
  count is larger, or the counts are equal and its display name is not greater.
\<close>

theorem finalize_sorted:
  "sorted_wrt (\<lambda>a b. articles_count b < articles_count a \<or>
       (articles_count a = articles_count b \<and> name a \<le> name b))
     (fst (finalize_profiles pm))"
proof -
  let ?f = "\<lambda>x :: profile. (- articles_count x, name x)"
  let ?ps = "List.map_filter (\<lambda>(k, v). fst (finalize_entry v)) pm"
  have "sorted (map ?f (sort_key ?f ?ps))" by (rule sorted_sort_key)
  then have "sorted_wrt (\<lambda>a b. ?f a \<le> ?f b) (sort_profiles ?ps)"
    by (simp only: sort_profiles_def sorted_map)
  then have "sorted_wrt (\<lambda>a b. articles_count b < articles_count a \<or>
       (articles_count a = articles_count b \<and> name a \<le> name b)) (sort_profiles ?ps)"
    by (rule sorted_wrt_mono_rel [rotated]) (auto simp: less_eq_prod_def)
  then show ?thesis
    by (simp add: finalize_profiles_def Let_def sorted_wrt_take)
qed

theorem finalize_sorted_witness:
  "map (\<lambda>p. (name p, articles_count p)) (fst (finalize_profiles
      [(''bo'', ex_entry ''Bo'' 1), (''cy'', ex_entry ''Cy'' 2), (''al'', ex_entry ''Al'' 1)]))
     = [(''Cy'', 2), (''Al'', 1), (''Bo'', 1)] \<and> ''Al'' \<le> ''Bo''"
proof -
  let ?pm = "[(''bo'', ex_entry ''Bo'' 1), (''cy'', ex_entry ''Cy'' 2), (''al'', ex_entry ''Al'' 1)]"
  have ev: "fst (finalize_profiles ?pm) =
    [\<lparr>name = ''Cy'', beat = ''News'', latest_article = ''T'', article_url = ''u'',
       publication_date = ''Unknown'', articles_count = 2\<rparr>,
     \<lparr>name = ''Al'', beat = ''News'', latest_article = ''T'', article_url = ''u'',
       publication_date = ''Unknown'', articles_count = 1\<rparr>,
     \<lparr>name = ''Bo'', beat = ''News'', latest_article = ''T'', article_url = ''u'',
       publication_date = ''Unknown'', articles_count = 1\<rparr>]" by code_simp
  from finalize_sorted [of ?pm] have "''Al'' \<le> ''Bo''" unfolding ev by simp
  with ev show ?thesis by simp
qed

section \<open>Properties of the extraction loop\<close>

lemma list_all_update:
  "P (k, v) \<Longrightarrow> list_all P al \<Longrightarrow> list_all P (AList.update k v al)"
  by (induction al) auto

lemma counted_lookup: "counted pm \<Longrightarrow> map_of pm k = Some e \<Longrightarrow> 1 \<le> articles_count e"
  by (auto simp: counted_def list_all_iff dest: map_of_SomeD)

lemma counted_update: "1 \<le> articles_count e \<Longrightarrow> counted pm \<Longrightarrow> counted (AList.update k e pm)"
  unfolding counted_def by (rule list_all_update) simp_all

lemma counted_merge_author:
  assumes "counted pm"
  shows "case merge_author url pg pm a of Done pm' \<Rightarrow> counted pm' | Raised err pm' \<Rightarrow> counted pm'"
proof (cases "map_of pm (lower (normalize_name a))")
  case None
  with assms show ?thesis
    by (simp add: merge_author_def Let_def counted_update new_entry_def)
next
  case (Some e)
  with assms have "1 \<le> articles_count e" by (rule counted_lookup)
  with assms Some show ?thesis
    by (auto simp: merge_author_def Let_def update_latest_def intro!: counted_update
        split: option.splits)
qed

lemma counted_merge_authors:
  "counted pm \<Longrightarrow>
   (case merge_authors url pg pm as of Done pm' \<Rightarrow> counted pm' | Raised err pm' \<Rightarrow> counted pm')"
proof (induction as arbitrary: pm)
  case Nil
  then show ?case by simp
next
  case (Cons a as)
  from counted_merge_author [OF Cons.prems, of url pg a] Cons.IH show ?case
    by (cases "merge_author url pg pm a") simp_all
qed

lemma articles_count_finalize_entry: "articles_count (snd (finalize_entry v)) = articles_count v"
  by (simp add: finalize_entry_def Let_def split: option.splits list.splits)

lemma counted_finalize: "counted pm \<Longrightarrow> counted (snd (finalize_profiles pm))"
  by (induction pm) (auto simp: counted_def finalize_profiles_def Let_def articles_count_finalize_entry)

lemma counted_finalize_pair:
  "counted pm \<Longrightarrow> finalize_profiles pm = (ps, pm') \<Longrightarrow> counted pm'"
  using counted_finalize [of pm] by simp

lemma counted_extract_step:
  assumes "counted (profiles_map st)"
  shows "counted (profiles_map (extract_step fetch st url))"
proof (cases "fetch url")
  case None
  with assms show ?thesis by (simp add: extract_step_def)
next
  case (Some pg)
  show ?thesis
  proof (cases "merge_authors url pg (profiles_map st) (authors pg)")
    case (Raised err pm)
    with counted_merge_authors [OF assms, of url pg "authors pg"] have "counted pm" by simp
    with Some Raised show ?thesis by (simp add: extract_step_def)
  next
    case (Done pm)
    with counted_merge_authors [OF assms, of url pg "authors pg"] have c: "counted pm" by simp
    then have "counted (snd (finalize_profiles pm))" by (rule counted_finalize)
    with c Some Done show ?thesis
      by (auto simp: extract_step_def Let_def split: prod.splits)
  qed
qed

lemma counted_extract_loop:
  "counted (profiles_map st) \<Longrightarrow> counted (profiles_map (extract_loop fetch m st urls))"
  by (induction urls arbitrary: st) (simp_all add: counted_extract_step)

text \<open>
  Claim C10. Every profile that \<open>extract_profiles\<close> returns has an article count of at
  least one: an entry starts at one, merging only adds one, and finalisation copies the
  count.
\<close>

theorem articles_count_positive:
  "\<forall>p \<in> set (extract_profiles fetch urls min_profiles). 1 \<le> articles_count p"
proof
  fix p
  let ?pm = "profiles_map (extract_run fetch urls min_profiles)"
  assume "p \<in> set (extract_profiles fetch urls min_profiles)"
  then obtain k v where kv: "(k, v) \<in> set ?pm" and s: "fst (finalize_entry v) = Some p"
    by (auto simp: extract_profiles_def set_finalize_profiles)
  have "counted ?pm"
    unfolding extract_run_def by (rule counted_extract_loop) (simp add: counted_def)
  with kv have "1 \<le> articles_count v" by (auto simp: counted_def list_all_iff)
  with finalize_entry_Some [OF s] show "1 \<le> articles_count p" by simp
qed

theorem articles_count_positive_witness:
  "map (\<lambda>p. (name p, articles_count p)) (extract_profiles byline_site [''Al'', ''Al'', ''Bo''] 30) =
     [(''Al'', 2), (''Bo'', 1)] \<and> (1 :: int) \<le> 2"
proof -
  have ev: "extract_profiles byline_site [''Al'', ''Al'', ''Bo''] 30 =
    [\<lparr>name = ''Al'', beat = ''News'', latest_article = ''T'', article_url = ''Al'',
       publication_date = ''Unknown'', articles_count = 2\<rparr>,
     \<lparr>name = ''Bo'', beat = ''News'', latest_article = ''T'', article_url = ''Bo'',
       publication_date = ''Unknown'', articles_count = 1\<rparr>]" by code_simp
  from articles_count_positive [of byline_site "[''Al'', ''Al'', ''Bo'']" 30]
  have "(1 :: int) \<le> 2" unfolding ev by simp
  with ev show ?thesis by simp
qed

lemma extract_loop_append:
  "extract_loop fetch m st (us @ rest) = extract_loop fetch m (extract_loop fetch m st us) rest"
proof (induction us arbitrary: st)
  case Nil
  show ?case by simp
next
  case (Cons u us)
  show ?case
  proof (cases "m \<le> int (length (profiles_map st))")
    case True
    then show ?thesis by (cases rest) simp_all
  next
    case False
    with Cons.IH show ?thesis by simp
  qed
qed

lemma distinct_merge_author:
  assumes "distinct (map fst pm)"
  shows "case merge_author url pg pm a of
           Done pm' \<Rightarrow> distinct (map fst pm') | Raised err pm' \<Rightarrow> distinct (map fst pm')"
  using assms
  by (simp add: merge_author_def Let_def distinct_update split: option.splits)

lemma distinct_merge_authors:
  "distinct (map fst pm) \<Longrightarrow>
   (case merge_authors url pg pm as of
      Done pm' \<Rightarrow> distinct (map fst pm') | Raised err pm' \<Rightarrow> distinct (map fst pm'))"
proof (induction as arbitrary: pm)
  case Nil
  then show ?case by simp
next
  case (Cons a as)
  from distinct_merge_author [OF Cons.prems, of url pg a] Cons.IH show ?case
    by (cases "merge_author url pg pm a") simp_all
qed

lemma keys_finalize: "map fst (snd (finalize_profiles pm)) = map fst pm"
  by (induction pm) (auto simp: finalize_profiles_def Let_def)

lemma distinct_extract_step:
  assumes "distinct (map fst (profiles_map st))"
  shows "distinct (map fst (profiles_map (extract_step fetch st url)))"
proof (cases "fetch url")
  case None
  with assms show ?thesis by (simp add: extract_step_def)
next
  case (Some pg)
  show ?thesis
  proof (cases "merge_authors url pg (profiles_map st) (authors pg)")
    case (Raised err pm)
    with distinct_merge_authors [OF assms, of url pg "authors pg"] Some show ?thesis
      by (simp add: extract_step_def)
  next
    case (Done pm)
    with distinct_merge_authors [OF assms, of url pg "authors pg"]
    have d: "distinct (map fst pm)" by simp
    then have "distinct (map fst (snd (finalize_profiles pm)))" by (simp add: keys_finalize)
    with d Some Done show ?thesis
      by (auto simp: extract_step_def Let_def split: prod.splits)
  qed
qed

lemma distinct_extract_loop:
  "distinct (map fst (profiles_map st)) \<Longrightarrow>
   distinct (map fst (profiles_map (extract_loop fetch m st urls)))"
  by (induction urls arbitrary: st) (simp_all add: distinct_extract_step)

lemma distinct_extract_run:
  "distinct (map fst (profiles_map (extract_run fetch urls m)))"
  unfolding extract_run_def by (rule distinct_extract_loop) simp

text \<open>
  Claim C9. The keys of the map are distinct, so its length is the number of author keys.
  Once the map holds at least \<open>min_profiles\<close> keys after the URLs \<open>us\<close>, the URLs that
  follow change nothing: the loop is left with the same map, the same progress payloads
  written and the same URLs requested, and the same profiles are returned.
\<close>

theorem extract_stops_at_min_profiles:
  assumes "min_profiles \<le> int (length (profiles_map (extract_run fetch us min_profiles)))"
  shows "distinct (map fst (profiles_map (extract_run fetch us min_profiles))) \<and>
         extract_run fetch (us @ rest) min_profiles = extract_run fetch us min_profiles \<and>
         extract_profiles fetch (us @ rest) min_profiles = extract_profiles fetch us min_profiles"
proof -
  have "extract_run fetch (us @ rest) min_profiles = extract_run fetch us min_profiles"
    using assms unfolding extract_run_def extract_loop_append [of _ _ _ us rest]
    by (cases rest) simp_all
  then show ?thesis by (simp add: extract_profiles_def distinct_extract_run)
qed

theorem extract_stops_at_min_profiles_witness:
  "length (profiles_map (extract_run crowded_site [''/news/1''] 30)) = 30 \<and>
   fetched (extract_run crowded_site [''/news/1'', ''/news/2'', ''/news/3''] 30) = [''/news/1''] \<and>
   extract_profiles crowded_site [''/news/1'', ''/news/2'', ''/news/3''] 30 =
     extract_profiles crowded_site [''/news/1''] 30"
proof -
  have st: "map fst (profiles_map (extract_run crowded_site [''/news/1''] 30)) = map lower thirty_names"
    by code_simp
  have "length (map fst (profiles_map (extract_run crowded_site [''/news/1''] 30))) = 30"
    unfolding st by (simp add: thirty_names_def)
  then have len: "length (profiles_map (extract_run crowded_site [''/news/1''] 30)) = 30"
    by simp
  have f: "fetched (extract_run crowded_site [''/news/1''] 30) = [''/news/1'']"
    by code_simp
  from len extract_stops_at_min_profiles
    [of 30 crowded_site "[''/news/1'']" "[''/news/2'', ''/news/3'']"]
  have "extract_run crowded_site [''/news/1'', ''/news/2'', ''/news/3''] 30 =
      extract_run crowded_site [''/news/1''] 30 \<and>
    extract_profiles crowded_site [''/news/1'', ''/news/2'', ''/news/3''] 30 =
      extract_profiles crowded_site [''/news/1''] 30" by simp
  with len f show ?thesis by simp
qed

section \<open>The pipeline on small sites\<close>

lemma strip_normalize_name: "strip (normalize_name s) = normalize_name s"
proof (cases "normalize_name s = []")
  case True
  then show ?thesis by (simp add: strip_def)
next
  case False
  define t where "t = strip (collapse_ws (replace_punct (strip_by (strip s))))"
  from False have l: "\<not> length t \<le> 1" and n: "normalize_name s = title t"
    unfolding t_def normalize_name_def Let_def by (auto split: if_splits)
  from l have ne: "t \<noteq> []" by auto
  have "\<not> is_space (hd t) \<and> \<not> is_space (last t)"
    using strip_ends [of "collapse_ws (replace_punct (strip_by (strip s)))"] ne t_def by simp
  then have "\<not> is_space (hd (title t)) \<and> \<not> is_space (last (title t))"
    using ne by (simp add: title_def hd_title_from last_title_from is_space_upper_chr)
  then show ?thesis unfolding n by (simp add: strip_id)
qed

lemma update_new: "map_of al k = None \<Longrightarrow> AList.update k v al = al @ [(k, v)]"
  by (induction al) (auto split: if_splits)

lemma update_latest_fields:
  "name (update_latest url pg e) = name e"
  "articles_count (update_latest url pg e) = articles_count e"
  "beat_counts (update_latest url pg e) = beat_counts e"
  by (simp_all add: update_latest_def)

lemma merge_author_new:
  assumes "normalize_name a \<noteq> []" and "map_of pm (lower (normalize_name a)) = None"
  shows "merge_author url pg pm a =
    Done (pm @ [(lower (normalize_name a), new_entry url pg (normalize_name a))])"
  using assms by (simp add: merge_author_def Let_def update_new)

lemma merge_author_known:
  assumes "normalize_name a \<noteq> []" and "map_of pm (lower (normalize_name a)) = Some e"
    and "beat_counts e = Some d"
  shows "merge_author url pg pm a =
    Done (AList.update (lower (normalize_name a))
      (update_latest url pg (e\<lparr>articles_count := articles_count e + 1,
         beat_counts := (if page_section pg = [] then beat_counts e
                         else Some (bump d (page_section pg)))\<rparr>))
      pm)"
proof (cases "page_section pg = []")
  case True
  with assms(1,2) show ?thesis by (simp add: merge_author_def Let_def)
next
  case False
  with assms show ?thesis by (simp add: merge_author_def Let_def)
qed

lemma extract_step_merged:
  assumes "fetch u = Some pg" and "merge_authors u pg (profiles_map st) (authors pg) = Done pm"
    and "Suc (processed st) mod WRITE_PROGRESS_EVERY \<noteq> 0"
  shows "profiles_map (extract_step fetch st u) = pm \<and>
    processed (extract_step fetch st u) = Suc (processed st)"
  using assms by (simp add: extract_step_def Let_def)

lemma merge_author_popped:
  assumes "normalize_name a \<noteq> []" and "map_of pm (lower (normalize_name a)) = Some e"
    and "beat_counts e = None" and "page_section pg \<noteq> []"
  shows "merge_author url pg pm a =
    Raised KeyError (AList.update (lower (normalize_name a))
      (e\<lparr>articles_count := articles_count e + 1\<rparr>) pm)"
  using assms by (simp add: merge_author_def Let_def)

lemma finalize_entry_kept:
  assumes "lower (strip (name v)) \<noteq> []" and "lower (strip (name v)) \<notin> set blacklist"
  shows "\<exists>p. fst (finalize_entry v) = Some p \<and> name p = name v \<and>
    articles_count p = articles_count v"
  using assms by (simp add: finalize_entry_def Let_def split: option.splits list.splits)

lemma kept_normalized:
  assumes "name v = normalize_name a" and "normalize_name a \<noteq> []"
    and "lower (normalize_name a) \<notin> set blacklist"
  shows "\<exists>p. fst (finalize_entry v) = Some p \<and> name p = normalize_name a \<and>
    articles_count p = articles_count v"
proof -
  from assms have "lower (strip (name v)) \<noteq> []" "lower (strip (name v)) \<notin> set blacklist"
    by (simp_all add: strip_normalize_name lower_def)
  from finalize_entry_kept [OF this] assms(1) show ?thesis by simp
qed

text \<open>
  Claim C8, as amended. Three fetched pages signed \<open>a\<close>, \<open>a\<close> and \<open>b\<close>, where the two
  names normalise to non-empty display names that differ when lower-cased and are not on
  the blacklist, give exactly two profiles: that of \<open>a\<close> with count 2, then that of \<open>b\<close>
  with count 1.
\<close>

theorem three_pages_two_authors:
  assumes f: "fetch u1 = Some p1" "fetch u2 = Some p2" "fetch u3 = Some p3"
    and as: "authors p1 = [a]" "authors p2 = [a]" "authors p3 = [b]"
    and na: "normalize_name a \<noteq> []" and nb: "normalize_name b \<noteq> []"
    and ab: "lower (normalize_name a) \<noteq> lower (normalize_name b)"
    and ba: "lower (normalize_name a) \<notin> set blacklist"
    and bb: "lower (normalize_name b) \<notin> set blacklist"
  shows "map (\<lambda>p. (name p, articles_count p)) (extract_profiles fetch [u1, u2, u3] 30) =
    [(normalize_name a, 2), (normalize_name b, 1)]"
proof -
  let ?ka = "lower (normalize_name a)" and ?kb = "lower (normalize_name b)"
  define s0 :: run where "s0 = \<lparr>profiles_map = [], processed = 0, written = [], fetched = []\<rparr>"
  define s1 where "s1 = extract_step fetch s0 u1"
  define s2 where "s2 = extract_step fetch s1 u2"
  define s3 where "s3 = extract_step fetch s2 u3"
  define e1 where "e1 = new_entry u1 p1 (normalize_name a)"
  define e2 where "e2 = update_latest u2 p2 (e1\<lparr>articles_count := articles_count e1 + 1,
    beat_counts := (if page_section p2 = [] then beat_counts e1
      else Some (bump (if page_section p1 = [] then [] else [(page_section p1, 1)])
        (page_section p2)))\<rparr>)"
  define e3 where "e3 = new_entry u3 p3 (normalize_name b)"
  have m1: "merge_authors u1 p1 (profiles_map s0) (authors p1) = Done [(?ka, e1)]"
    using merge_author_new [OF na, of "[]" u1 p1] by (simp add: s0_def as e1_def)
  have st1: "profiles_map s1 = [(?ka, e1)] \<and> processed s1 = Suc (processed s0)"
    unfolding s1_def using extract_step_merged [of fetch u1 p1 s0, OF f(1) m1]
    by (simp add: s0_def WRITE_PROGRESS_EVERY_def)
  have "beat_counts e1 = Some (if page_section p1 = [] then [] else [(page_section p1, 1)])"
    by (simp add: e1_def new_entry_def)
  from merge_author_known [OF na _ this, of "[(?ka, e1)]" u2 p2]
  have m2: "merge_authors u2 p2 (profiles_map s1) (authors p2) = Done [(?ka, e2)]"
    by (simp add: st1 as e2_def)
  have st2: "profiles_map s2 = [(?ka, e2)] \<and> processed s2 = Suc (processed s1)"
    unfolding s2_def using extract_step_merged [of fetch u2 p2 s1, OF f(2) m2]
    by (simp add: st1 s0_def WRITE_PROGRESS_EVERY_def)
  have m3: "merge_authors u3 p3 (profiles_map s2) (authors p3) = Done [(?ka, e2), (?kb, e3)]"
    using merge_author_new [OF nb, of "[(?ka, e2)]" u3 p3] ab by (simp add: st2 as e3_def)
  have st3: "profiles_map s3 = [(?ka, e2), (?kb, e3)] \<and> processed s3 = Suc (processed s2)"
    unfolding s3_def using extract_step_merged [of fetch u3 p3 s2, OF f(3) m3]
    by (simp add: st1 st2 s0_def WRITE_PROGRESS_EVERY_def)
  have "extract_run fetch [u1, u2, u3] 30 = extract_loop fetch 30 s0 [u1, u2, u3]"
    by (simp add: extract_run_def s0_def)
  also have "\<dots> = extract_loop fetch 30 s1 [u2, u3]" by (simp add: s0_def s1_def)
  also have "\<dots> = extract_loop fetch 30 s2 [u3]" by (simp add: st1 s2_def)
  also have "\<dots> = s3" by (simp add: st2 s3_def)
  finally have run: "profiles_map (extract_run fetch [u1, u2, u3] 30) = [(?ka, e2), (?kb, e3)]"
    by (simp add: st3)
  have n2: "name e2 = normalize_name a" and c2: "articles_count e2 = 2"
    by (simp_all add: e2_def e1_def new_entry_def update_latest_fields)
  have n3: "name e3 = normalize_name b" and c3: "articles_count e3 = 1"
    by (simp_all add: e3_def new_entry_def)
  from kept_normalized [OF n2 na ba] c2
  obtain pa where pa: "fst (finalize_entry e2) = Some pa" "name pa = normalize_name a"
    "articles_count pa = 2" by auto
  from kept_normalized [OF n3 nb bb] c3
  obtain pb where pb: "fst (finalize_entry e3) = Some pb" "name pb = normalize_name b"
    "articles_count pb = 1" by auto
  have "extract_profiles fetch [u1, u2, u3] 30 = [pa, pb]"
    by (simp add: extract_profiles_def run finalize_profiles_def Let_def pa pb sort_profiles_def
        less_eq_prod_def)
  with pa pb show ?thesis by simp
qed

theorem three_pages_two_authors_witness:
  "map (\<lambda>p. (name p, articles_count p))
     (extract_profiles byline_site [''Amy Poe'', ''Amy Poe'', ''Bob Ray''] 30) =
    [(''Amy Poe'', 2), (''Bob Ray'', 1)]"
proof -
  have n: "normalize_name ''Amy Poe'' = ''Amy Poe''" "normalize_name ''Bob Ray'' = ''Bob Ray''"
    by code_simp+
  have l: "lower ''Amy Poe'' \<noteq> lower ''Bob Ray''" "lower ''Amy Poe'' \<notin> set blacklist"
    "lower ''Bob Ray'' \<notin> set blacklist" by code_simp+
  from three_pages_two_authors [of byline_site "''Amy Poe''" "ex_page [''Amy Poe''] ''News''"
      "''Amy Poe''" "ex_page [''Amy Poe''] ''News''" "''Bob Ray''" "ex_page [''Bob Ray''] ''News''"
      "''Amy Poe''" "''Bob Ray''"] n l
  show ?thesis by (simp add: byline_site_def ex_page_def)
qed

text \<open>
  Claim C8 as stated fails: \<open>normalize_name\<close> returns the empty string for a name of one
  character, so pages signed \<open>A\<close>, \<open>A\<close> and \<open>B\<close> leave the map empty.
\<close>

theorem single_letter_authors_dropped:
  "extract_profiles byline_site [''A'', ''A'', ''B''] 30 = []"
  by code_simp

text \<open>
  Claim C4 at seven pages of one author, three on politics followed by four on sports.
  The progress payload after the fifth page finalises the map itself: the beat is set to
  \<open>Politics\<close> and \<open>beat_counts\<close> is removed from the entry. Pages six and seven then raise
  \<open>KeyError\<close> after the count is incremented (\<open>merge_author_popped\<close>), so the four
  sports articles never outvote the three on politics.
\<close>

theorem beat_frozen_after_checkpoint:
  "extract_profiles jane_site jane_urls 30 =
     [\<lparr>name = ''Jane Doe'', beat = ''Politics'', latest_article = ''T'', article_url = ''/politics/a'',
       publication_date = ''Unknown'', articles_count = 7\<rparr>]"
  by code_simp

text \<open>
  Without a progress payload in between, the beat is the most frequent one: the three
  observations Politics, Politics, Sports of the claim.
\<close>

lemma three_observations:
  "extract_profiles jane_site [''/politics/a'', ''/politics/b'', ''/sport/d''] 30 =
     [\<lparr>name = ''Jane Doe'', beat = ''Politics'', latest_article = ''T'', article_url = ''/politics/a'',
       publication_date = ''Unknown'', articles_count = 3\<rparr>]"
  by code_simp

section \<open>Properties of the crawler\<close>

lemma filtered_visit_anchor:
  assumes "filtered w base_url st"
  shows "filtered w base_url (visit_anchor w (crawl_domain w base_url) url st href)"
proof (cases "contains (lower (netloc w (urljoin w url href))) (crawl_domain w base_url)")
  case False
  with assms show ?thesis by (simp add: visit_anchor_def Let_def)
next
  case True
  then have "kept_by_filter w base_url (strip_query (urljoin w url href))"
    unfolding kept_by_filter_def by blast
  with assms True show ?thesis
    by (simp add: visit_anchor_def Let_def filtered_def list_all_iff)
qed

lemma filtered_anchors:
  "filtered w base_url st \<Longrightarrow>
   filtered w base_url
     (foldl (\<lambda>st href. visit_anchor w (crawl_domain w base_url) url st href) st hrefs)"
  by (induction hrefs arbitrary: st) (simp_all add: filtered_visit_anchor)

lemma filtered_frame:
  "filtered w base_url (st\<lparr>to_visit := tv\<rparr>) = filtered w base_url st"
  "filtered w base_url (st\<lparr>seen := sn\<rparr>) = filtered w base_url st"
  by (simp_all add: filtered_def)

lemma filtered_crawl_step:
  assumes "filtered w base_url st"
  shows "filtered w base_url (crawl_step w (crawl_domain w base_url) st)"
proof (cases "to_visit st")
  case Nil
  with assms show ?thesis by (simp add: crawl_step_def)
next
  case (Cons url rest)
  show ?thesis
  proof (cases "anchors w url")
    case None
    with Cons assms show ?thesis by (simp add: crawl_step_def Let_def filtered_frame)
  next
    case (Some hrefs)
    have "\<And>sn. filtered w base_url
      (foldl (\<lambda>st href. visit_anchor w (crawl_domain w base_url) url st href)
        (st\<lparr>to_visit := rest, seen := sn\<rparr>) hrefs)"
      by (rule filtered_anchors) (simp add: filtered_frame assms)
    with Cons Some assms show ?thesis
      by (simp add: crawl_step_def Let_def filtered_frame)
  qed
qed

lemma filtered_crawl_loop:
  "filtered w base_url st \<Longrightarrow>
   filtered w base_url (crawl_loop w (crawl_domain w base_url) n st)"
  by (induction n arbitrary: st) (simp_all add: filtered_crawl_step)

text \<open>
  Claim C7, as amended. At every turn of the crawl, and so in the list returned, every
  article link is a resolved anchor URL, cut at its query, whose lower-cased \<open>netloc\<close>
  contains the crawl domain as a substring.
\<close>

theorem crawl_keeps_filtered_links:
  "(\<forall>u \<in> set (article_links
        (crawl_loop w (crawl_domain w base_url) n (crawl_start w base_url))).
      kept_by_filter w base_url u) \<and>
   (find_article_links w base_url n = Some links \<longrightarrow>
      (\<forall>u \<in> set links. kept_by_filter w base_url u))"
proof -
  let ?st = "crawl_loop w (crawl_domain w base_url) n (crawl_start w base_url)"
  have "filtered w base_url (crawl_start w base_url)"
    by (simp add: filtered_def crawl_start_def)
  then have "filtered w base_url ?st" by (rule filtered_crawl_loop)
  then have 1: "\<forall>u \<in> set (article_links ?st). kept_by_filter w base_url u"
    by (simp add: filtered_def list_all_iff)
  have 2: "find_article_links w base_url n = Some links \<longrightarrow>
      (\<forall>u \<in> set links. kept_by_filter w base_url u)"
  proof
    assume "find_article_links w base_url n = Some links"
    then have "links = take MAX_ARTICLE_URLS (article_links ?st)"
      by (simp add: find_article_links_def Let_def split: if_splits)
    with 1 show "\<forall>u \<in> set links. kept_by_filter w base_url u"
      by (auto dest: in_set_takeD)
  qed
  from 1 2 show ?thesis ..
qed

theorem crawl_keeps_filtered_links_witness:
  "find_article_links ex_web ''https://www.example.com'' 20 =
     Some [''https://www.example.com.evil.org/news/scoop'',
           ''https://www.example.com/news/budget-vote''] \<and>
   kept_by_filter ex_web ''https://www.example.com'' ''https://www.example.com/news/budget-vote''"
proof -
  have ev: "find_article_links ex_web ''https://www.example.com'' 20 =
     Some [''https://www.example.com.evil.org/news/scoop'',
           ''https://www.example.com/news/budget-vote'']" by code_simp
  from crawl_keeps_filtered_links [of ex_web "''https://www.example.com''" 20] ev
  show ?thesis by simp
qed

text \<open>
  Claim C7 as stated fails: the test is \<open>domain not in netloc\<close>, a substring test, so a
  link to the host \<open>www.example.com.evil.org\<close> found on \<open>www.example.com\<close> is returned
  among the article links.
\<close>

theorem crawl_keeps_foreign_host:
  "find_article_links ex_web ''https://www.example.com'' 20 =
     Some [''https://www.example.com.evil.org/news/scoop'',
           ''https://www.example.com/news/budget-vote''] \<and>
   lower (netloc ex_web ''https://www.example.com.evil.org/news/scoop'') =
     ''www.example.com.evil.org'' \<and>
   crawl_domain ex_web ''https://www.example.com'' = ''www.example.com''"
  by code_simp

section \<open>Properties of the checkpoint writer\<close>

lemma dump_frame: "q \<noteq> p \<Longrightarrow> s' \<in> set (fst (dump r q cs s)) \<Longrightarrow> s' p = s p"
proof (induction cs arbitrary: r s)
  case Nil
  then show ?case by simp
next
  case (Cons c cs)
  let ?s = "s(q \<mapsto> (case s q of None \<Rightarrow> [] | Some old \<Rightarrow> old) @ c)"
  let ?r = "map_option (\<lambda>k. k - 1) r"
  from Cons.prems(2) have "r \<noteq> Some 0" by (auto split: if_splits)
  with Cons.prems(2) have "s' = ?s \<or> s' \<in> set (fst (dump ?r q cs ?s))"
    by (auto simp: Let_def split: prod.splits)
  then show ?case
  proof
    assume "s' = ?s"
    with Cons.prems(1) show ?thesis by simp
  next
    assume "s' \<in> set (fst (dump ?r q cs ?s))"
    with Cons.IH [OF Cons.prems(1)] have "s' p = ?s p" by blast
    with Cons.prems(1) show ?thesis by simp
  qed
qed

lemma dump_done:
  "s q = Some old \<Longrightarrow> dump r q cs s = (states, False) \<Longrightarrow>
   last (s # states) q = Some (old @ concat cs)"
proof (induction cs arbitrary: r s old states)
  case Nil
  then show ?case by simp
next
  case (Cons c cs)
  let ?s = "s(q \<mapsto> old @ c)"
  let ?r = "map_option (\<lambda>k. k - 1) r"
  from Cons.prems have nz: "r \<noteq> Some 0" by (auto split: if_splits)
  obtain rest raised where d: "dump ?r q cs ?s = (rest, raised)" by (cases "dump ?r q cs ?s")
  with Cons.prems nz have st: "states = ?s # rest" and "raised = False"
    by (simp_all add: Let_def)
  with d have d': "dump ?r q cs ?s = (rest, False)" by simp
  have "?s q = Some (old @ c)" by simp
  from Cons.IH [OF this d'] have "last (?s # rest) q = Some ((old @ c) @ concat cs)" .
  moreover from st have "last (s # states) = last (?s # rest)" by simp
  ultimately show ?case by simp
qed

lemma dump_never_raises: "snd (dump None q cs t) = False"
  by (induction cs arbitrary: t) (simp_all add: Let_def case_prod_beta)

lemma temp_write_frame:
  assumes "tmp_name env \<noteq> p" and "s' \<in> set (fst (temp_write env p chunks s))"
  shows "s' p = s p \<or> s' p = Some (concat chunks)"
proof (cases "mkstemp_raises env")
  case True
  with assms(2) show ?thesis by (simp add: temp_write_def)
next
  case False
  let ?tmp = "tmp_name env"
  let ?s1 = "s(?tmp \<mapsto> [])"
  obtain states raised where d: "dump (tmp_write_raises env) ?tmp chunks ?s1 = (states, raised)"
    by (cases "dump (tmp_write_raises env) ?tmp chunks ?s1")
  have early: "s'' \<in> set (?s1 # states) \<Longrightarrow> s'' p = s p" for s''
  proof -
    assume "s'' \<in> set (?s1 # states)"
    then have "s'' = ?s1 \<or> s'' \<in> set (fst (dump (tmp_write_raises env) ?tmp chunks ?s1))"
      using d by simp
    then show "s'' p = s p"
    proof
      assume "s'' = ?s1"
      with assms(1) show ?thesis by simp
    next
      assume "s'' \<in> set (fst (dump (tmp_write_raises env) ?tmp chunks ?s1))"
      with dump_frame [OF assms(1)] have "s'' p = ?s1 p" by blast
      with assms(1) show ?thesis by simp
    qed
  qed
  show ?thesis
  proof (cases "raised \<or> fsync_raises env \<or> replace_raises env")
    case True
    with False d assms(2) have "s' \<in> set (?s1 # states)"
      by (simp add: temp_write_def Let_def)
    with early show ?thesis by blast
  next
    case nr: False
    let ?s2 = "last (?s1 # states)"
    from nr d have "dump (tmp_write_raises env) ?tmp chunks ?s1 = (states, False)" by simp
    with dump_done [of ?s1 ?tmp "[]"] have t: "?s2 ?tmp = Some (concat chunks)" by simp
    from False nr d assms(2)
    have "s' \<in> set (?s1 # states) \<or> s' = ?s2(p := ?s2 ?tmp, ?tmp := None)"
      by (auto simp: temp_write_def Let_def)
    then show ?thesis
    proof
      assume "s' \<in> set (?s1 # states)"
      with early show ?thesis by blast
    next
      assume "s' = ?s2(p := ?s2 ?tmp, ?tmp := None)"
      with assms(1) t show ?thesis by simp
    qed
  qed
qed

lemma temp_write_no_fault:
  assumes "tmp_name env \<noteq> p" and "no_fault env"
  shows "snd (temp_write env p chunks s) \<and>
    last (fst (temp_write env p chunks s)) p = Some (concat chunks)"
proof -
  let ?tmp = "tmp_name env"
  let ?s1 = "s(?tmp \<mapsto> [])"
  obtain states raised where d: "dump None ?tmp chunks ?s1 = (states, raised)"
    by (cases "dump None ?tmp chunks ?s1")
  from d dump_never_raises [of ?tmp chunks ?s1] have nr: "\<not> raised" by simp
  let ?s2 = "last (?s1 # states)"
  from nr d have "dump None ?tmp chunks ?s1 = (states, False)" by simp
  with dump_done [of ?s1 ?tmp "[]"] have t: "?s2 ?tmp = Some (concat chunks)" by simp
  from assms(2) d nr have
    "temp_write env p chunks s = (?s1 # states @ [?s2(p := ?s2 ?tmp, ?tmp := None)], True)"
    by (simp add: temp_write_def no_fault_def Let_def)
  with assms(1) t show ?thesis by simp
qed

text \<open>
  Claim C1, as amended. Whatever fails, every state of the temporary-file path leaves at
  the destination what was there before the call or the complete new document (the name
  \<open>mkstemp\<close> picks is not the destination). When no operation of that path raises, the
  whole write consists of these states and ends with the complete new document at the
  destination.
\<close>

theorem checkpoint_atomic_without_fault:
  assumes "tmp_name env \<noteq> p"
  shows "(\<forall>s' \<in> set (fst (temp_write env p chunks s)).
            s' p = s p \<or> s' p = Some (concat chunks)) \<and>
         (no_fault env \<longrightarrow>
            (\<forall>s' \<in> set (atomic_write_json env p chunks s).
               s' p = s p \<or> s' p = Some (concat chunks)) \<and>
            last (atomic_write_json env p chunks s) p = Some (concat chunks))"
proof -
  have 1: "\<forall>s' \<in> set (fst (temp_write env p chunks s)).
      s' p = s p \<or> s' p = Some (concat chunks)"
    using temp_write_frame [OF assms] by blast
  have 2: "no_fault env \<longrightarrow>
      (\<forall>s' \<in> set (atomic_write_json env p chunks s).
         s' p = s p \<or> s' p = Some (concat chunks)) \<and>
      last (atomic_write_json env p chunks s) p = Some (concat chunks)"
  proof
    assume "no_fault env"
    from temp_write_no_fault [OF assms this, of chunks s]
    have "atomic_write_json env p chunks s = fst (temp_write env p chunks s)"
      and "last (fst (temp_write env p chunks s)) p = Some (concat chunks)"
      by (simp_all add: atomic_write_json_def case_prod_beta)
    with 1 show "(\<forall>s' \<in> set (atomic_write_json env p chunks s).
         s' p = s p \<or> s' p = Some (concat chunks)) \<and>
      last (atomic_write_json env p chunks s) p = Some (concat chunks)" by simp
  qed
  from 1 2 show ?thesis ..
qed

theorem checkpoint_atomic_without_fault_witness:
  "tmp_name ex_os \<noteq> ''data.json'' \<and> no_fault ex_os \<and>
   last (atomic_write_json ex_os ''data.json'' ex_payload ex_disk) ''data.json'' =
     Some ''{\"profiles\": [{\"name\": \"Jane Doe\"}]}''"
proof -
  have t: "tmp_name ex_os \<noteq> ''data.json''" by (simp add: ex_os_def)
  have n: "no_fault ex_os" by (simp add: no_fault_def ex_os_def)
  have c: "concat ex_payload = ''{\"profiles\": [{\"name\": \"Jane Doe\"}]}''"
    by (simp add: ex_payload_def)
  from checkpoint_atomic_without_fault [OF t, of ex_payload ex_disk] n c t
  show ?thesis by simp
qed

text \<open>
  Claim C1 as stated fails when the temporary file cannot be created: the handler opens
  the destination for writing, and a reader then finds it empty, then holding a
  prefix of the new document.
\<close>

theorem fallback_write_truncates:
  "observed ''data.json''
     (atomic_write_json ex_os_readonly_dir ''data.json'' ex_payload ex_disk) =
     [Some '''', Some ''{\"profiles\": ['', Some ''{\"profiles\": [{\"name\": \"Jane Doe\"}'',
      Some ''{\"profiles\": [{\"name\": \"Jane Doe\"}]}''] \<and>
   ex_disk ''data.json'' = Some ''{\"profiles\": []}'' \<and>
   concat ex_payload = ''{\"profiles\": [{\"name\": \"Jane Doe\"}]}''"
  by code_simp

end
